theory Spec2Isabelle
  imports Main "HOL-Library.Word" "HOL-Library.Log_Nat" "HOL-Library.Code_Target_Numeral"
begin

unbundle bit_operations_syntax

section \<open>Numbers, buffers and strings of the runtime\<close>

text \<open>
  The decoder of \<^verbatim>\<open>src/utils.ts\<close> and \<^verbatim>\<open>src/tplReader.ts\<close> works on a Node.js
  \<^verbatim>\<open>Buffer\<close> and on JavaScript numbers. An offset, a length or a count is either a
  natural number or \<^verbatim>\<open>NaN\<close>: \<^verbatim>\<open>parseInt("", 16)\<close> is \<^verbatim>\<open>NaN\<close>, which is what the
  code obtains whenever it reads a length at or past the end of the buffer. Numbers are
  exact below \<open>2 ^ 53\<close>; offsets are modelled as exact naturals (no buffer is that long),
  the rounding to a double is written out where an 8-byte integer is parsed.
\<close>

type_synonym byte = "8 word"
type_synonym buffer = "byte list"

datatype jsnum = Num nat | NaN

instantiation jsnum :: "{plus, minus, times, ord}"
begin

definition plus_jsnum :: "jsnum \<Rightarrow> jsnum \<Rightarrow> jsnum" where
  "plus_jsnum a b = (case (a, b) of (Num x, Num y) \<Rightarrow> Num (x + y) | _ \<Rightarrow> NaN)"

text \<open>The code only subtracts 4 from an offset it has just advanced by 4.\<close>

definition minus_jsnum :: "jsnum \<Rightarrow> jsnum \<Rightarrow> jsnum" where
  "minus_jsnum a b = (case (a, b) of (Num x, Num y) \<Rightarrow> Num (x - y) | _ \<Rightarrow> NaN)"

definition times_jsnum :: "jsnum \<Rightarrow> jsnum \<Rightarrow> jsnum" where
  "times_jsnum a b = (case (a, b) of (Num x, Num y) \<Rightarrow> Num (x * y) | _ \<Rightarrow> NaN)"

text \<open>Every comparison with \<^verbatim>\<open>NaN\<close> is false.\<close>

definition less_jsnum :: "jsnum \<Rightarrow> jsnum \<Rightarrow> bool" where
  "less_jsnum a b = (case (a, b) of (Num x, Num y) \<Rightarrow> x < y | _ \<Rightarrow> False)"

definition less_eq_jsnum :: "jsnum \<Rightarrow> jsnum \<Rightarrow> bool" where
  "less_eq_jsnum a b = (case (a, b) of (Num x, Num y) \<Rightarrow> x \<le> y | _ \<Rightarrow> False)"

instance ..

end

text \<open>Truthiness of a number (\<^verbatim>\<open>if (length)\<close>): neither \<^verbatim>\<open>0\<close> nor \<^verbatim>\<open>NaN\<close>.\<close>

fun truthy :: "jsnum \<Rightarrow> bool" where
  "truthy (Num n) = (n \<noteq> 0)"
| "truthy NaN = False"

text \<open>
  \<^verbatim>\<open>Buffer.prototype.subarray(start, end)\<close>: each bound is clamped to the buffer
  (\<^verbatim>\<open>NaN\<close> counts as 0), and the slice is empty when the end is not after the start.
\<close>

fun adjustOffset :: "jsnum \<Rightarrow> nat \<Rightarrow> nat" where
  "adjustOffset NaN len = 0"
| "adjustOffset (Num n) len = (if n < len then n else len)"

definition subarray :: "buffer \<Rightarrow> jsnum \<Rightarrow> jsnum \<Rightarrow> buffer" where
  "subarray file start end =
     (let s = adjustOffset start (length file); e = adjustOffset end (length file)
      in take (e - s) (drop s file))"

text \<open>
  \<^verbatim>\<open>toString("ascii")\<close> clears the highest bit of every byte before decoding it;
  \<^verbatim>\<open>Buffer.from(s, "ascii")\<close> stores the character codes.
\<close>

definition toString_ascii :: "buffer \<Rightarrow> string" where
  "toString_ascii bs = map (\<lambda>b. String.ascii_of (char_of (unat b))) bs"

definition Buffer_from_ascii :: "string \<Rightarrow> buffer" where
  "Buffer_from_ascii s = map of_char s"

text \<open>
  \<^verbatim>\<open>parseInt(slice.toString("hex"), 16)\<close>: the big-endian value of the bytes of the
  slice, rounded to the nearest double (ties to even); \<^verbatim>\<open>NaN\<close> for the empty slice.
\<close>

definition be_nat :: "buffer \<Rightarrow> nat" where
  "be_nat bs = foldl (\<lambda>acc b. acc * 256 + unat b) 0 bs"

definition to_double :: "nat \<Rightarrow> nat" where
  "to_double n =
     (if n < 2 ^ 53 then n
      else let e = floorlog 2 n - 53; q = n div 2 ^ e; r = n mod 2 ^ e; half = 2 ^ (e - 1)
           in if half < r \<or> (r = half \<and> odd q) then (q + 1) * 2 ^ e else q * 2 ^ e)"

definition parseInt_hex :: "buffer \<Rightarrow> jsnum" where
  "parseInt_hex bs = (if bs = [] then NaN else Num (to_double (be_nat bs)))"

section \<open>Labels\<close>

text \<open>\<^verbatim>\<open>extractLabel\<close> of \<^verbatim>\<open>src/utils.ts\<close>.\<close>

definition extractLabel :: "buffer \<Rightarrow> jsnum \<Rightarrow> buffer \<times> jsnum" where
  "extractLabel file offset =
     (let labelLength = parseInt_hex (subarray file offset (offset + Num 4));
          offset = offset + Num 4
      in if labelLength = Num 0
         then (subarray file offset (offset + Num 4), offset + Num 4)
         else (subarray file offset (offset + labelLength), offset + labelLength))"


section \<open>String helpers\<close>

text \<open>
  After \<^verbatim>\<open>toString("ascii")\<close> every character code is below 128, where
  \<^verbatim>\<open>toLowerCase\<close> changes the letters \<^verbatim>\<open>A\<close> to \<^verbatim>\<open>Z\<close> only and \<^verbatim>\<open>trim\<close> removes tab,
  line feed, vertical tab, form feed, carriage return and space.
\<close>

definition toLowerCase :: "string \<Rightarrow> string" where
  "toLowerCase s =
     map (\<lambda>c. let n = (of_char c :: nat) in if 65 \<le> n \<and> n \<le> 90 then char_of (n + 32) else c) s"

definition is_space :: "char \<Rightarrow> bool" where
  "is_space c = ((of_char c :: nat) \<in> {9, 10, 11, 12, 13, 32})"

definition trim :: "string \<Rightarrow> string" where
  "trim s = rev (dropWhile is_space (rev (dropWhile is_space s)))"

text \<open>\<^verbatim>\<open>s.endsWith(p)\<close>, \<^verbatim>\<open>s.slice(0, -k)\<close> and \<^verbatim>\<open>s.slice(-k)\<close> for \<open>k > 0\<close>.\<close>

definition endsWith :: "string \<Rightarrow> string \<Rightarrow> bool" where
  "endsWith s p = (length p \<le> length s \<and> drop (length s - length p) s = p)"

definition slice_to_neg :: "string \<Rightarrow> nat \<Rightarrow> string" where
  "slice_to_neg s k = take (length s - k) s"

definition slice_from_neg :: "string \<Rightarrow> nat \<Rightarrow> string" where
  "slice_from_neg s k = drop (length s - k) s"

text \<open>\<^verbatim>\<open>toolName.split("=").pop() || ""\<close>: the text after the last \<^verbatim>\<open>=\<close>.\<close>

definition split_eq_pop :: "string \<Rightarrow> string" where
  "split_eq_pop s = rev (takeWhile (\<lambda>c. c \<noteq> CHR ''='') (rev s))"

text \<open>\<^verbatim>\<open>i.toString()\<close> for a loop index.\<close>

fun number_toString :: "nat \<Rightarrow> string" where
  "number_toString n =
     (if n < 10 then [char_of (48 + n)]
      else number_toString (n div 10) @ [char_of (48 + n mod 10)])"

declare number_toString.simps [simp del]

text \<open>
  \<^verbatim>\<open>toString("hex")\<close> as the list of hexadecimal digit values, and the number of
  matches of \<^verbatim>\<open>/00/g\<close> in it (left to right, not overlapping, not aligned to bytes).
\<close>

definition toString_hex :: "buffer \<Rightarrow> nat list" where
  "toString_hex bs = concat (map (\<lambda>b. [unat b div 16, unat b mod 16]) bs)"

fun match_00 :: "nat list \<Rightarrow> nat" where
  "match_00 (a # b # r) = (if a = 0 \<and> b = 0 then Suc (match_00 r) else match_00 (b # r))"
| "match_00 _ = 0"

section \<open>Decoded values\<close>

text \<open>
  The values the decoder builds: an object keeps its own properties in insertion order;
  a double is kept as the bytes handed to the unpacking library.
\<close>

datatype jsvalue =
    Undefined
  | Boolean bool
  | Number jsnum
  | Double buffer
  | String string
  | Array "jsvalue list"
  | Object "(string \<times> jsvalue) list"

text \<open>\<^verbatim>\<open>obj[key]\<close> on an object built by the decoder.\<close>

fun get_property :: "jsvalue \<Rightarrow> string \<Rightarrow> jsvalue" where
  "get_property (Object kvs) k = (case map_of kvs k of None \<Rightarrow> Undefined | Some v \<Rightarrow> v)"
| "get_property _ k = Undefined"

section \<open>Primitive decoders\<close>

definition extractBoolean :: "buffer \<Rightarrow> jsnum \<Rightarrow> jsvalue \<times> jsnum" where
  "extractBoolean file offset =
     (let boolValue = truthy (parseInt_hex (subarray file offset (offset + Num 1)))
      in (Boolean boolValue, offset + Num 1))"

definition extractEnum :: "buffer \<Rightarrow> jsnum \<Rightarrow> jsvalue \<times> jsnum" where
  "extractEnum file offset =
     (let classIdLength = parseInt_hex (subarray file offset (offset + Num 4));
          offset = offset + Num 4;
          classIdLength = (if classIdLength = Num 0 then Num 4 else classIdLength);
          classId = toString_ascii (subarray file offset (offset + classIdLength));
          offset = offset + classIdLength;
          valueLength = parseInt_hex (subarray file offset (offset + Num 4));
          offset = offset + Num 4;
          valueLength = (if valueLength = Num 0 then Num 4 else valueLength);
          value = toString_ascii (subarray file offset (offset + valueLength));
          offset = offset + valueLength
      in (Object [(''classId'', String classId), (''value'', String value)], offset))"

text \<open>
  Modelled from the spec: \<^verbatim>\<open>struct.unpack(">d", bytes)\<close> of the package python-struct,
  which is not among the sources. The spec gives the result as the 8-byte big-endian
  IEEE-754 double of the slice and names no error for a short slice; the value is
  represented by the slice itself.
\<close>

definition struct_unpack_d :: "buffer \<Rightarrow> jsvalue" where
  "struct_unpack_d bs = Double bs"

definition extractDouble :: "buffer \<Rightarrow> jsnum \<Rightarrow> jsvalue \<times> jsnum" where
  "extractDouble file offset =
     (let value = struct_unpack_d (subarray file offset (offset + Num 8))
      in (value, offset + Num 8))"

definition extractUnitFloat :: "buffer \<Rightarrow> jsnum \<Rightarrow> jsvalue \<times> jsnum" where
  "extractUnitFloat file offset =
     (let unit = toString_ascii (subarray file offset (offset + Num 4));
          offset = offset + Num 4;
          value = struct_unpack_d (subarray file offset (offset + Num 8));
          offset = offset + Num 8
      in (Object [(''unit'', String unit), (''value'', value)], offset))"

definition extractInteger :: "buffer \<Rightarrow> jsnum \<Rightarrow> jsvalue \<times> jsnum" where
  "extractInteger file offset =
     (let value = parseInt_hex (subarray file offset (offset + Num 4))
      in (Number value, offset + Num 4))"

definition extractLargeInteger :: "buffer \<Rightarrow> jsnum \<Rightarrow> jsvalue \<times> jsnum" where
  "extractLargeInteger file offset =
     (let value = parseInt_hex (subarray file offset (offset + Num 8))
      in (Number value, offset + Num 8))"

definition extractClass :: "buffer \<Rightarrow> jsnum \<Rightarrow> string \<times> jsnum" where
  "extractClass file offset =
     (let (labelBuffer, newOffset) = extractLabel file offset
      in (toString_ascii labelBuffer, newOffset))"

section \<open>The placeholder scan\<close>

definition placeholders :: "string list" where
  "placeholders = [''GlbO'', ''Objc'', ''VlLs'', ''dou'', ''UntF'', ''TEXT'', ''enum'', ''long'',
                   ''comp'', ''bool'', ''type'', ''GlbC'', ''obj '', ''alis'', ''tdta'']"

text \<open>
  \<^verbatim>\<open>extractUntilPlaceholder\<close>: a \<^verbatim>\<open>while (true)\<close> loop with one exit. The result \<open>None\<close>
  stands for a loop that never returns.
\<close>

partial_function (option) extractUntilPlaceholder ::
    "buffer \<Rightarrow> jsnum \<Rightarrow> string \<Rightarrow> (string \<times> string \<times> jsnum) option" where
  "extractUntilPlaceholder file offset extractedText =
     (let extractedText = extractedText @ toString_ascii (subarray file offset (offset + Num 1));
          offset = offset + Num 1
      in if list_ex (\<lambda>placeholder. endsWith extractedText placeholder) placeholders
         then (let placeholderLength = length (placeholders ! 0)
               in Some (slice_to_neg extractedText placeholderLength,
                        slice_from_neg extractedText placeholderLength, offset))
         else extractUntilPlaceholder file offset extractedText)"

declare extractUntilPlaceholder.simps [code]


section \<open>Properties, tag dispatch, objects, text and lists\<close>

text \<open>
  The functions \<^verbatim>\<open>extractProperty\<close>, \<^verbatim>\<open>extractPropertyValue\<close>, \<^verbatim>\<open>extractOsTypeValue\<close>,
  \<^verbatim>\<open>extractObjectClass\<close>, \<^verbatim>\<open>extractText\<close> and \<^verbatim>\<open>extractList\<close> call each other, and their
  loops need not end. Each takes a budget of nested calls and loop rounds as its first
  argument; \<open>None\<close> stands for a call that does not return within the budget (the call
  stack itself is taken as unbounded). The \<^verbatim>\<open>for\<close> and \<^verbatim>\<open>while\<close> loops are the functions
  whose names end in \<open>_loop\<close>.

  The table \<^verbatim>\<open>typeHandlers\<close> is the chain of comparisons in \<^verbatim>\<open>extractOsTypeValue\<close>, in the
  order of the table. The decoder passes it tags of at most 4 characters, and no key that
  the table inherits from \<^verbatim>\<open>Object.prototype\<close> is that short.
\<close>

definition unsupported :: "string list" where
  "unsupported = [''type'', ''GlbC'', ''obj '', ''alis'', ''tdta'']"

text \<open>What \<^verbatim>\<open>extractOsTypeValue\<close> returns around the result of a handler.\<close>

definition handled ::
    "string \<Rightarrow> string \<Rightarrow> (jsvalue \<times> jsnum) option
      \<Rightarrow> ((string \<times> string \<times> jsvalue) option \<times> jsnum) option" where
  "handled propertyName propertyType r =
     (case r of None \<Rightarrow> None
      | Some (value, newOffset) \<Rightarrow> Some (Some (propertyName, propertyType, value), newOffset))"

definition as_array :: "(jsvalue list \<times> jsnum) option \<Rightarrow> (jsvalue \<times> jsnum) option" where
  "as_array r = (case r of None \<Rightarrow> None | Some (vs, newOffset) \<Rightarrow> Some (Array vs, newOffset))"

definition as_string :: "(string \<times> jsnum) option \<Rightarrow> (jsvalue \<times> jsnum) option" where
  "as_string r = (case r of None \<Rightarrow> None | Some (s, newOffset) \<Rightarrow> Some (String s, newOffset))"

function extractProperty :: "nat \<Rightarrow> buffer \<Rightarrow> jsnum \<Rightarrow> (jsvalue \<times> jsnum) option"
  and extractPropertyValue :: "nat \<Rightarrow> buffer \<Rightarrow> jsnum \<Rightarrow> buffer \<Rightarrow> (jsvalue \<times> jsnum) option"
  and extractOsTypeValue ::
    "nat \<Rightarrow> buffer \<Rightarrow> jsnum \<Rightarrow> string \<Rightarrow> string
      \<Rightarrow> ((string \<times> string \<times> jsvalue) option \<times> jsnum) option"
  and extractObjectClass :: "nat \<Rightarrow> buffer \<Rightarrow> jsnum \<Rightarrow> string \<Rightarrow> (jsvalue list \<times> jsnum) option"
  and extractObjectClass_loop ::
    "nat \<Rightarrow> buffer \<Rightarrow> jsnum \<Rightarrow> nat \<Rightarrow> jsnum \<Rightarrow> jsvalue list \<Rightarrow> (jsvalue list \<times> jsnum) option"
  and extractText :: "nat \<Rightarrow> buffer \<Rightarrow> jsnum \<Rightarrow> (string \<times> jsnum) option"
  and extractText_loop :: "nat \<Rightarrow> buffer \<Rightarrow> jsnum \<Rightarrow> jsnum \<Rightarrow> (jsnum \<times> jsnum) option"
  and extractList :: "nat \<Rightarrow> buffer \<Rightarrow> jsnum \<Rightarrow> (jsvalue list \<times> jsnum) option"
  and extractList_loop ::
    "nat \<Rightarrow> buffer \<Rightarrow> jsnum \<Rightarrow> nat \<Rightarrow> jsnum \<Rightarrow> jsvalue list \<Rightarrow> (jsvalue list \<times> jsnum) option"
where
  "extractProperty 0 file offset = None"
| "extractProperty (Suc fuel) file offset =
     (let (propertyName, newOffset) = extractLabel file offset;
          offset = newOffset
      in if toString_ascii propertyName \<noteq> ''null''
         then extractPropertyValue fuel file offset propertyName
         else Some (Object [], offset))"
| "extractPropertyValue 0 file offset propertyName = None"
| "extractPropertyValue (Suc fuel) file offset propertyName =
     (let propertyType = toString_ascii (subarray file offset (offset + Num 4));
          offset = offset + Num 4
      in case extractOsTypeValue fuel file offset (trim (toString_ascii propertyName)) propertyType of
           None \<Rightarrow> None
         | Some (None, newOffset) \<Rightarrow> Some (Object [], newOffset)
         | Some (Some (name, os_type, value), newOffset) \<Rightarrow>
             Some (Object [(name, Object [(''type'', String os_type), (''value'', value)])],
                   newOffset))"
| "extractOsTypeValue 0 file offset propertyName propertyType = None"
| "extractOsTypeValue (Suc fuel) file offset propertyName propertyType =
     (if propertyType = ''Objc'' then
        handled propertyName propertyType
          (as_array (extractObjectClass fuel file offset propertyName))
      else if propertyType = ''VlLs'' then
        handled propertyName propertyType (as_array (extractList fuel file offset))
      else if propertyType = ''doub'' then
        handled propertyName propertyType (Some (extractDouble file offset))
      else if propertyType = ''UntF'' then
        handled propertyName propertyType (Some (extractUnitFloat file offset))
      else if propertyType = ''TEXT'' then
        handled propertyName propertyType (as_string (extractText fuel file offset))
      else if propertyType = ''enum'' then
        handled propertyName propertyType (Some (extractEnum file offset))
      else if propertyType = ''long'' then
        handled propertyName propertyType (Some (extractInteger file offset))
      else if propertyType = ''comp'' then
        handled propertyName propertyType (Some (extractLargeInteger file offset))
      else if propertyType = ''bool'' then
        handled propertyName propertyType (Some (extractBoolean file offset))
      else if propertyType \<in> set unsupported then Some (None, offset)
      else (case extractUntilPlaceholder file offset (propertyName @ propertyType) of
              None \<Rightarrow> None
            | Some (nameFound, newPropertyType, newOffset) \<Rightarrow>
                extractOsTypeValue fuel file newOffset nameFound newPropertyType))"
| "extractObjectClass 0 file offset name = None"
| "extractObjectClass (Suc fuel) file offset name =
     (if name = ''Grad'' then
        (case extractText fuel file offset of
           None \<Rightarrow> None
         | Some (text, offset) \<Rightarrow> extractObjectClass_loop fuel file offset 0 (Num 4) [])
      else
        (let offset = offset + Num 6;
             offset = snd (extractLabel file offset);
             propertyCount = parseInt_hex (subarray file offset (offset + Num 4));
             offset = offset + Num 4
         in extractObjectClass_loop fuel file offset 0 propertyCount []))"
| "extractObjectClass_loop 0 file offset i propertyCount properties = None"
| "extractObjectClass_loop (Suc fuel) file offset i propertyCount properties =
     (if Num i < propertyCount then
        (case extractProperty fuel file offset of
           None \<Rightarrow> None
         | Some (property, newOffset) \<Rightarrow>
             extractObjectClass_loop fuel file newOffset (Suc i) propertyCount
               (properties @ [property]))
      else Some (properties, offset))"
| "extractText 0 file offset = None"
| "extractText (Suc fuel) file offset =
     (let textLength = parseInt_hex (subarray file offset (offset + Num 4));
          offset = offset + Num 4
      in case extractText_loop fuel file offset textLength of
           None \<Rightarrow> None
         | Some (offset, textLength) \<Rightarrow>
             (let textHex = subarray file offset (offset + textLength * Num 2);
                  text = filter (\<lambda>c. c \<noteq> CHR 0x00) (toString_ascii textHex);
                  offset = offset + textLength * Num 2
              in Some (text, offset)))"
| "extractText_loop 0 file offset textLength = None"
| "extractText_loop (Suc fuel) file offset textLength =
     (if textLength = Num 0 then
        (let offset = offset - Num 4
         in case extractProperty fuel file offset of
              None \<Rightarrow> None
            | Some (property, offset) \<Rightarrow>
                (let textLength = parseInt_hex (subarray file offset (offset + Num 4));
                     offset = offset + Num 4
                 in if truthy textLength then
                      (let textHex = toString_hex (subarray file offset (offset + textLength * Num 2));
                           numZeros = match_00 textHex
                       in if Num numZeros = textLength + Num 1 then Some (offset, textLength)
                          else extractText_loop fuel file offset (Num 0))
                    else extractText_loop fuel file offset textLength))
      else Some (offset, textLength))"
| "extractList 0 file offset = None"
| "extractList (Suc fuel) file offset =
     (let count = parseInt_hex (subarray file offset (offset + Num 4));
          offset = offset + Num 4
      in extractList_loop fuel file offset 0 count [])"
| "extractList_loop 0 file offset i count properties = None"
| "extractList_loop (Suc fuel) file offset i count properties =
     (if Num i < count then
        (let iAsString = number_toString i
         in case extractPropertyValue fuel file offset (Buffer_from_ascii iAsString) of
              None \<Rightarrow> None
            | Some (property, newOffset) \<Rightarrow>
                extractList_loop fuel file newOffset (Suc i) count
                  (properties @ [get_property property iAsString]))
      else Some (properties, offset))"
  by pat_completeness auto

termination
  by (relation "measure (case_sum (case_sum (case_sum fst fst) (case_sum fst fst))
                  (case_sum (case_sum fst fst) (case_sum fst (case_sum fst fst))))")
     simp_all

section \<open>Header and tool section\<close>

definition validateTplHeader :: "buffer \<Rightarrow> jsnum \<Rightarrow> bool \<times> jsnum" where
  "validateTplHeader file offset =
     (let headerSignature = toLowerCase (toString_ascii (subarray file offset (offset + Num 4)));
          offset = offset + Num 4
      in if headerSignature \<noteq> ''8btp'' then (False, offset)
         else (let offset = offset + Num 8;
                   photoshopSignature =
                     toLowerCase (toString_ascii (subarray file offset (offset + Num 4)));
                   offset = offset + Num 4
               in if photoshopSignature \<noteq> ''8bim'' then (False, offset)
                  else (True, offset)))"

text \<open>
  \<^verbatim>\<open>Buffer.prototype.lastIndexOf(value)\<close> of the runtime: the greatest index at which
  \<open>val\<close> occurs in the buffer, \<open>- 1\<close> when it occurs nowhere. The search runs from the
  last position where \<open>val\<close> fits down to 0.
\<close>

fun lastIndexOf_from :: "buffer \<Rightarrow> buffer \<Rightarrow> nat \<Rightarrow> int" where
  "lastIndexOf_from file val 0 = (if take (length val) file = val then 0 else - 1)"
| "lastIndexOf_from file val (Suc i) =
     (if take (length val) (drop (Suc i) file) = val then int (Suc i)
      else lastIndexOf_from file val i)"

definition lastIndexOf :: "buffer \<Rightarrow> buffer \<Rightarrow> int" where
  "lastIndexOf file val =
     (if length file < length val then - 1
      else lastIndexOf_from file val (length file - length val))"

definition moveToToolDataSection :: "buffer \<Rightarrow> bool \<times> jsnum" where
  "moveToToolDataSection file =
     (let toolDataSignature = ''8BIMtptp'';
          lastOccurrencePos = lastIndexOf file (Buffer_from_ascii toolDataSignature)
      in if lastOccurrencePos \<noteq> - 1
         then (let offset = Num (nat (lastOccurrencePos + 16)) in (True, offset))
         else (False, Num 0))"

section \<open>The tool record iterator\<close>

text \<open>
  \<^verbatim>\<open>TPLData\<close> is an object from tool type to an array of tool records, built from
  \<^verbatim>\<open>{}\<close>. A key that \<^verbatim>\<open>Object.prototype\<close> defines reads as a truthy value that is no
  array, so \<^verbatim>\<open>tpl[toolType].push\<close> raises a \<^verbatim>\<open>TypeError\<close> for it. The keys are kept in
  the order in which they were added; the order in which the runtime enumerates keys
  that look like integers is not modelled.
\<close>

type_synonym TPLData = "(string \<times> jsvalue list) list"

datatype error = TypeError

definition Object_prototype_keys :: "string list" where
  "Object_prototype_keys =
     [''constructor'', ''__defineGetter__'', ''__defineSetter__'', ''hasOwnProperty'',
      ''__lookupGetter__'', ''__lookupSetter__'', ''isPrototypeOf'', ''propertyIsEnumerable'',
      ''toString'', ''valueOf'', ''__proto__'', ''toLocaleString'']"

definition tpl_truthy :: "TPLData \<Rightarrow> string \<Rightarrow> bool" where
  "tpl_truthy tpl toolType = (map_of tpl toolType \<noteq> None \<or> toolType \<in> set Object_prototype_keys)"

fun tpl_push :: "TPLData \<Rightarrow> string \<Rightarrow> jsvalue \<Rightarrow> error + TPLData" where
  "tpl_push [] toolType v = Inl TypeError"
| "tpl_push ((k, vs) # tpl) toolType v =
     (if k = toolType then Inr ((k, vs @ [v]) # tpl)
      else (case tpl_push tpl toolType v of Inl e \<Rightarrow> Inl e | Inr tpl' \<Rightarrow> Inr ((k, vs) # tpl')))"

fun readTool_properties_loop ::
    "nat \<Rightarrow> buffer \<Rightarrow> jsnum \<Rightarrow> nat \<Rightarrow> jsnum \<Rightarrow> jsvalue list \<Rightarrow> (jsvalue list \<times> jsnum) option" where
  "readTool_properties_loop 0 file offset i count properties = None"
| "readTool_properties_loop (Suc fuel) file offset i count properties =
     (if Num i < count then
        (case extractProperty fuel file offset of
           None \<Rightarrow> None
         | Some (property, newOffset3) \<Rightarrow>
             readTool_properties_loop fuel file newOffset3 (Suc i) count (properties @ [property]))
      else Some (properties, offset))"

fun readTool_loop :: "nat \<Rightarrow> buffer \<Rightarrow> jsnum \<Rightarrow> TPLData \<Rightarrow> (error + TPLData \<times> jsnum) option" where
  "readTool_loop 0 file offset tpl = None"
| "readTool_loop (Suc fuel) file offset tpl =
     (case extractText fuel file offset of
        None \<Rightarrow> None
      | Some (toolName, newOffset) \<Rightarrow>
          (let offset = newOffset;
               offset = offset + Num 10;
               (toolTypeBuffer, newOffset2) = extractLabel file offset;
               toolType = trim (toString_ascii toolTypeBuffer);
               offset = newOffset2;
               tpl = (if \<not> tpl_truthy tpl toolType then tpl @ [(toolType, [])] else tpl);
               count = parseInt_hex (subarray file offset (offset + Num 4));
               offset = offset + Num 4
           in case readTool_properties_loop fuel file offset 0 count [] of
                None \<Rightarrow> None
              | Some (properties, offset) \<Rightarrow>
                  (case tpl_push tpl toolType
                          (Object [(''name'', String (split_eq_pop toolName)),
                                   (''properties'', Array properties)]) of
                     Inl e \<Rightarrow> Some (Inl e)
                   | Inr tpl \<Rightarrow>
                       if length (subarray file offset (offset + Num 4)) \<noteq> 4
                       then Some (Inr (tpl, offset))
                       else readTool_loop fuel file offset tpl)))"

definition readTool :: "nat \<Rightarrow> buffer \<Rightarrow> jsnum \<Rightarrow> (error + TPLData \<times> jsnum) option" where
  "readTool fuel file offset = readTool_loop fuel file offset []"

text \<open>\<^verbatim>\<open>readTpl\<close>, on the bytes that \<^verbatim>\<open>readFileSync\<close> returned.\<close>

definition readTpl :: "nat \<Rightarrow> buffer \<Rightarrow> (error + TPLData) option" where
  "readTpl fuel file =
     (let (isValid, offset) = validateTplHeader file (Num 0)
      in if \<not> isValid then Some (Inr [])
         else (let (moved, newOffset) = moveToToolDataSection file
               in if \<not> moved then Some (Inr [])
                  else (case readTool fuel file newOffset of
                          None \<Rightarrow> None
                        | Some (Inl e) \<Rightarrow> Some (Inl e)
                        | Some (Inr (tplData, _)) \<Rightarrow> Some (Inr tplData))))"

section \<open>The header check as the specification words it, and the worked example\<close>

text \<open>
  The specification asks for a header whose first 4 bytes equal the ASCII text
  \<^verbatim>\<open>8btp\<close> case-insensitively, and whose bytes 12 to 15 equal \<^verbatim>\<open>8bim\<close> likewise:
  \<open>header_as_specified\<close> compares the bytes with the character codes after putting both
  to lower case. \<open>clear_high_bits\<close> is what \<^verbatim>\<open>toString("ascii")\<close> does to the bytes first.
\<close>

definition lower_code :: "nat \<Rightarrow> nat" where
  "lower_code n = (if 65 \<le> n \<and> n \<le> 90 then n + 32 else n)"

definition equals_ascii_ci :: "buffer \<Rightarrow> string \<Rightarrow> bool" where
  "equals_ascii_ci bs s = list_all2 (\<lambda>b c. lower_code (unat b) = lower_code (of_char c)) bs s"

definition header_as_specified :: "buffer \<Rightarrow> bool" where
  "header_as_specified file =
     (equals_ascii_ci (take 4 file) ''8btp'' \<and> equals_ascii_ci (take 4 (drop 12 file)) ''8bim'')"

definition clear_high_bits :: "buffer \<Rightarrow> buffer" where
  "clear_high_bits bs = map (\<lambda>b. b AND 0x7F) bs"

text \<open>
  The buffer of the end-to-end scenario: a valid header, the marker \<^verbatim>\<open>8BIMtptp\<close>, 8 filler
  bytes, and one tool record: the name \<^verbatim>\<open>Default=MyBrush\<close> as 15 two-byte code units, 10
  skipped bytes, the type label \<^verbatim>\<open>Brsh\<close>, the property count 1, and the property
  \<^verbatim>\<open>Size\<close> of tag \<^verbatim>\<open>long\<close> with the value 42.
\<close>

definition example_buffer :: buffer where
  "example_buffer =
     Buffer_from_ascii ''8BTP'' @ replicate 8 0 @ Buffer_from_ascii ''8BIM''
     @ Buffer_from_ascii ''8BIMtptp'' @ replicate 8 0
     @ [0, 0, 0, 15] @ concat (map (\<lambda>c. [0, of_char c]) ''Default=MyBrush'')
     @ replicate 10 0
     @ [0, 0, 0, 4] @ Buffer_from_ascii ''Brsh''
     @ [0, 0, 0, 1]
     @ [0, 0, 0, 4] @ Buffer_from_ascii ''Size'' @ Buffer_from_ascii ''long'' @ [0, 0, 0, 42]"

section \<open>Advancing offsets\<close>

text \<open>
  A returned offset has advanced when it is a number greater than the offset the step
  started from, or when it is \<^verbatim>\<open>NaN\<close> (the step read a length at or past the end of the
  buffer, or started from \<^verbatim>\<open>NaN\<close>).
\<close>

definition advanced :: "jsnum \<Rightarrow> jsnum \<Rightarrow> bool" where
  "advanced offset newOffset =
     (case newOffset of NaN \<Rightarrow> True
      | Num b \<Rightarrow> (case offset of NaN \<Rightarrow> False | Num a \<Rightarrow> a < b))"

section \<open>Arithmetic and slices\<close>

text \<open>The equations of the decoder are unfolded where a proof asks for them.\<close>

declare extractProperty.simps [simp del] extractPropertyValue.simps [simp del]
  extractOsTypeValue.simps [simp del] extractObjectClass.simps [simp del]
  extractObjectClass_loop.simps [simp del] extractText.simps [simp del]
  extractText_loop.simps [simp del] extractList.simps [simp del]
  extractList_loop.simps [simp del] readTool_properties_loop.simps [simp del]
  readTool_loop.simps [simp del]

lemma plus_Num [simp]: "Num a + Num b = Num (a + b)"
  by (simp add: plus_jsnum_def)

lemma plus_NaN [simp]: "NaN + x = NaN" "x + NaN = NaN"
  by (simp_all add: plus_jsnum_def split: jsnum.splits)

lemma minus_Num [simp]: "Num a - Num b = Num (a - b)"
  by (simp add: minus_jsnum_def)

lemma minus_NaN [simp]: "NaN - x = NaN" "x - NaN = NaN"
  by (simp_all add: minus_jsnum_def split: jsnum.splits)

lemma times_Num [simp]: "Num a * Num b = Num (a * b)"
  by (simp add: times_jsnum_def)

lemma times_NaN [simp]: "NaN * x = NaN" "x * NaN = NaN"
  by (simp_all add: times_jsnum_def split: jsnum.splits)

lemma less_Num [simp]: "Num a < Num b \<longleftrightarrow> a < b"
  by (simp add: less_jsnum_def)

lemma less_NaN [simp]: "\<not> NaN < x" "\<not> x < NaN"
  by (simp_all add: less_jsnum_def split: jsnum.splits)

lemma subarray_Num: "subarray file (Num a) (Num b) = take (b - a) (drop a file)"
  by (auto simp: subarray_def Let_def)

lemma subarray_NaN_end [simp]: "subarray file x NaN = []"
  by (simp add: subarray_def)

lemma subarray_past_end: "length file \<le> a \<Longrightarrow> subarray file (Num a) e = []"
  by (simp add: subarray_def Let_def)

lemma parseInt_hex_Nil [simp]: "parseInt_hex [] = NaN"
  by (simp add: parseInt_hex_def)

lemma to_double_small: "n < 2 ^ 53 \<Longrightarrow> to_double n = n"
  by (simp add: to_double_def)

lemma unat_of_char [simp]: "unat (of_char c :: byte) = of_char c"
proof -
  have "(of_char c :: byte) = of_nat (of_char c)" by (simp add: of_nat_of_char)
  moreover have "(of_char c :: nat) < 256" by (metis of_char_mod_256 mod_less_divisor zero_less_numeral)
  ultimately show ?thesis by (simp add: unat_of_nat)
qed

lemma toString_ascii_Buffer_from_ascii:
  "toString_ascii (Buffer_from_ascii s) = map String.ascii_of s"
  by (simp add: toString_ascii_def Buffer_from_ascii_def)

lemma toString_ascii_Nil [simp]: "toString_ascii [] = []"
  by (simp add: toString_ascii_def)

lemma toString_ascii_Cons:
  "toString_ascii (b # bs) = String.ascii_of (char_of (unat b)) # toString_ascii bs"
  by (simp add: toString_ascii_def)

lemma length_Buffer_from_ascii: "length (Buffer_from_ascii s) = length s"
  by (simp add: Buffer_from_ascii_def)

lemma length_toString_ascii [simp]: "length (toString_ascii bs) = length bs"
  by (simp add: toString_ascii_def)

text \<open>Evaluating reads on a buffer that is given byte by byte.\<close>

lemmas byte_eval = Let_def subarray_Num parseInt_hex_def be_nat_def to_double_def
  toString_ascii_Cons char_of_def bit_Suc_0_iff

section \<open>A larger budget keeps every result\<close>

text \<open>
  The budget only bounds a run: what a decoder returns within a budget it returns within
  every larger one, so a result does not depend on the budget it was computed with.
\<close>

lemma budget_Suc:
  "(\<forall>file offset r. extractProperty fuel file offset = Some r
      \<longrightarrow> extractProperty (Suc fuel) file offset = Some r)
   \<and> (\<forall>file offset nm r. extractPropertyValue fuel file offset nm = Some r
      \<longrightarrow> extractPropertyValue (Suc fuel) file offset nm = Some r)
   \<and> (\<forall>file offset nm ty r. extractOsTypeValue fuel file offset nm ty = Some r
      \<longrightarrow> extractOsTypeValue (Suc fuel) file offset nm ty = Some r)
   \<and> (\<forall>file offset nm r. extractObjectClass fuel file offset nm = Some r
      \<longrightarrow> extractObjectClass (Suc fuel) file offset nm = Some r)
   \<and> (\<forall>file offset i n ps r. extractObjectClass_loop fuel file offset i n ps = Some r
      \<longrightarrow> extractObjectClass_loop (Suc fuel) file offset i n ps = Some r)
   \<and> (\<forall>file offset r. extractText fuel file offset = Some r
      \<longrightarrow> extractText (Suc fuel) file offset = Some r)
   \<and> (\<forall>file offset len r. extractText_loop fuel file offset len = Some r
      \<longrightarrow> extractText_loop (Suc fuel) file offset len = Some r)
   \<and> (\<forall>file offset r. extractList fuel file offset = Some r
      \<longrightarrow> extractList (Suc fuel) file offset = Some r)
   \<and> (\<forall>file offset i n ps r. extractList_loop fuel file offset i n ps = Some r
      \<longrightarrow> extractList_loop (Suc fuel) file offset i n ps = Some r)"
proof (induction fuel)
  case 0
  show ?case
    by (simp add: extractProperty.simps extractPropertyValue.simps extractOsTypeValue.simps
        extractObjectClass.simps extractObjectClass_loop.simps extractText.simps
        extractText_loop.simps extractList.simps extractList_loop.simps)
next
  case (Suc fuel)
  note IH1 = Suc.IH [THEN conjunct1, rule_format]
  note IH2 = Suc.IH [THEN conjunct2, THEN conjunct1, rule_format]
  note IH3 = Suc.IH [THEN conjunct2, THEN conjunct2, THEN conjunct1, rule_format]
  note IH4 = Suc.IH [THEN conjunct2, THEN conjunct2, THEN conjunct2, THEN conjunct1, rule_format]
  note IH5 = Suc.IH [THEN conjunct2, THEN conjunct2, THEN conjunct2, THEN conjunct2, THEN conjunct1, rule_format]
  note IH6 = Suc.IH [THEN conjunct2, THEN conjunct2, THEN conjunct2, THEN conjunct2, THEN conjunct2, THEN conjunct1, rule_format]
  note IH7 = Suc.IH [THEN conjunct2, THEN conjunct2, THEN conjunct2, THEN conjunct2, THEN conjunct2, THEN conjunct2, THEN conjunct1, rule_format]
  note IH8 = Suc.IH [THEN conjunct2, THEN conjunct2, THEN conjunct2, THEN conjunct2, THEN conjunct2, THEN conjunct2, THEN conjunct2, THEN conjunct1, rule_format]
  note IH9 = Suc.IH [THEN conjunct2, THEN conjunct2, THEN conjunct2, THEN conjunct2, THEN conjunct2, THEN conjunct2, THEN conjunct2, THEN conjunct2, rule_format]
  have P1: "extractProperty (Suc (Suc fuel)) f offset = Some r"
    if a: "extractProperty (Suc fuel) f offset = Some r" for f offset r
  proof -
    obtain nm off1 where l: "extractLabel f offset = (nm, off1)"
      by (cases "extractLabel f offset")
    show ?thesis
    proof (cases "toString_ascii nm \<noteq> ''null''")
      case True
      with a l have "extractPropertyValue fuel f off1 nm = Some r"
        by (simp add: extractProperty.simps)
      from IH2 [OF this] True l show ?thesis
        by (subst extractProperty.simps) simp
    next
      case False
      with a l show ?thesis
        by (simp add: extractProperty.simps)
    qed
  qed
  have P2: "extractPropertyValue (Suc (Suc fuel)) f offset nm = Some r"
    if a: "extractPropertyValue (Suc fuel) f offset nm = Some r" for f offset nm r
  proof -
    from a obtain x where x: "extractOsTypeValue fuel f (offset + Num 4) (trim (toString_ascii nm))
        (toString_ascii (subarray f offset (offset + Num 4))) = Some x"
      by (auto simp: extractPropertyValue.simps Let_def split: option.splits)
    from a x have r: "(case x of (None, newOffset) \<Rightarrow> Some (Object [], newOffset)
        | (Some (name, os_type, v), newOffset) \<Rightarrow>
            Some (Object [(name, Object [(''type'', String os_type), (''value'', v)])], newOffset))
        = Some r"
      by (simp add: extractPropertyValue.simps Let_def)
    from IH3 [OF x] r show ?thesis
      by (subst extractPropertyValue.simps) (simp add: Let_def)
  qed
  have P3: "extractOsTypeValue (Suc (Suc fuel)) f offset nm ty = Some r"
    if a: "extractOsTypeValue (Suc fuel) f offset nm ty = Some r" for f offset nm ty r
  proof -
    consider (c_objc) "ty = ''Objc''" | (c_vlls) "ty = ''VlLs''" | (c_text) "ty = ''TEXT''"
      | (c_flat) "ty \<noteq> ''Objc''" "ty \<noteq> ''VlLs''" "ty \<noteq> ''TEXT''"
      by argo
    then show ?thesis
    proof cases
      case c_objc
      with a obtain x where x: "extractObjectClass fuel f offset nm = Some x"
        by (auto simp: extractOsTypeValue.simps handled_def as_array_def split: option.splits)
      from a c_objc x have "handled nm ty (as_array (Some x)) = Some r"
        by (simp add: extractOsTypeValue.simps)
      with IH4 [OF x] c_objc show ?thesis
        by (subst extractOsTypeValue.simps) simp
    next
      case c_vlls
      with a obtain x where x: "extractList fuel f offset = Some x"
        by (auto simp: extractOsTypeValue.simps handled_def as_array_def split: option.splits)
      from a c_vlls x have "handled nm ty (as_array (Some x)) = Some r"
        by (simp add: extractOsTypeValue.simps)
      with IH8 [OF x] c_vlls show ?thesis
        by (subst extractOsTypeValue.simps) simp
    next
      case c_text
      with a obtain x where x: "extractText fuel f offset = Some x"
        by (auto simp: extractOsTypeValue.simps handled_def as_string_def split: option.splits)
      from a c_text x have "handled nm ty (as_string (Some x)) = Some r"
        by (simp add: extractOsTypeValue.simps)
      with IH6 [OF x] c_text show ?thesis
        by (subst extractOsTypeValue.simps) simp
    next
      case c_flat
      show ?thesis
      proof (cases "ty \<in> {''doub'', ''UntF'', ''enum'', ''long'', ''comp'', ''bool''}
                     \<or> ty \<in> set unsupported")
        case True
        from a c_flat True have "extractOsTypeValue (Suc (Suc fuel)) f offset nm ty
            = extractOsTypeValue (Suc fuel) f offset nm ty"
          by (subst (1 2) extractOsTypeValue.simps) auto
        with a show ?thesis by simp
      next
        case False
        then have flat: "ty \<noteq> ''doub''" "ty \<noteq> ''UntF''" "ty \<noteq> ''enum''" "ty \<noteq> ''long''"
          "ty \<noteq> ''comp''" "ty \<noteq> ''bool''" "ty \<notin> set unsupported"
          by simp_all
        with a c_flat obtain nameFound tag off1
          where scan: "extractUntilPlaceholder f offset (nm @ ty) = Some (nameFound, tag, off1)"
            and rec: "extractOsTypeValue fuel f off1 nameFound tag = Some r"
          by (auto simp: extractOsTypeValue.simps split: option.splits prod.splits)
        from IH3 [OF rec] scan c_flat flat show ?thesis
          by (subst extractOsTypeValue.simps) simp
      qed
    qed
  qed
  have P4: "extractObjectClass (Suc (Suc fuel)) f offset nm = Some r"
    if a: "extractObjectClass (Suc fuel) f offset nm = Some r" for f offset nm r
  proof (cases "nm = ''Grad''")
    case True
    with a obtain t off1 where t: "extractText fuel f offset = Some (t, off1)"
      and l: "extractObjectClass_loop fuel f off1 0 (Num 4) [] = Some r"
      by (auto simp: extractObjectClass.simps split: option.splits prod.splits)
    from IH6 [OF t] IH5 [OF l] True show ?thesis
      by (subst extractObjectClass.simps) simp
  next
    case False
    let ?o1 = "snd (extractLabel f (offset + Num 6))"
    from a False have l: "extractObjectClass_loop fuel f (?o1 + Num 4) 0
        (parseInt_hex (subarray f ?o1 (?o1 + Num 4))) [] = Some r"
      by (simp add: extractObjectClass.simps Let_def)
    from IH5 [OF l] False show ?thesis
      by (subst extractObjectClass.simps) (simp add: Let_def)
  qed
  have P5: "extractObjectClass_loop (Suc (Suc fuel)) f offset i n ps = Some r"
    if a: "extractObjectClass_loop (Suc fuel) f offset i n ps = Some r" for f offset i n ps r
  proof (cases "Num i < n")
    case True
    with a obtain p off1 where p: "extractProperty fuel f offset = Some (p, off1)"
      and l: "extractObjectClass_loop fuel f off1 (Suc i) n (ps @ [p]) = Some r"
      by (auto simp: extractObjectClass_loop.simps split: option.splits prod.splits)
    from IH1 [OF p] IH5 [OF l] True show ?thesis
      by (subst extractObjectClass_loop.simps) simp
  next
    case False
    with a show ?thesis
      by (subst extractObjectClass_loop.simps) (simp add: extractObjectClass_loop.simps)
  qed
  have P6: "extractText (Suc (Suc fuel)) f offset = Some r"
    if a: "extractText (Suc fuel) f offset = Some r" for f offset r
  proof -
    from a obtain x
      where l: "extractText_loop fuel f (offset + Num 4)
                  (parseInt_hex (subarray f offset (offset + Num 4))) = Some x"
      by (auto simp: extractText.simps Let_def split: option.splits)
    from a l have "(case x of (offset, textLength) \<Rightarrow>
        Some (filter (\<lambda>c. c \<noteq> CHR 0x00)
                (toString_ascii (subarray f offset (offset + textLength * Num 2))),
              offset + textLength * Num 2)) = Some r"
      by (simp add: extractText.simps Let_def)
    with IH7 [OF l] show ?thesis
      by (subst extractText.simps) (simp add: Let_def)
  qed
  have P7: "extractText_loop (Suc (Suc fuel)) f offset len = Some r"
    if a: "extractText_loop (Suc fuel) f offset len = Some r" for f offset len r
  proof (cases "len = Num 0")
    case False
    with a show ?thesis
      by (subst extractText_loop.simps) (simp add: extractText_loop.simps)
  next
    case True
    with a obtain p off1 where p: "extractProperty fuel f (offset - Num 4) = Some (p, off1)"
      by (auto simp: extractText_loop.simps Let_def split: option.splits prod.splits)
    let ?len = "parseInt_hex (subarray f off1 (off1 + Num 4))"
    let ?o2 = "off1 + Num 4"
    let ?accept = "truthy ?len
      \<and> Num (match_00 (toString_hex (subarray f ?o2 (?o2 + ?len * Num 2)))) = ?len + Num 1"
    show ?thesis
    proof (cases ?accept)
      case True
      with a \<open>len = Num 0\<close> p have "r = (?o2, ?len)"
        by (simp add: extractText_loop.simps Let_def)
      with True \<open>len = Num 0\<close> IH1 [OF p] show ?thesis
        by (subst extractText_loop.simps) (simp add: Let_def)
    next
      case False
      with a \<open>len = Num 0\<close> p
      have l: "extractText_loop fuel f ?o2 (if truthy ?len then Num 0 else ?len) = Some r"
        by (auto simp: extractText_loop.simps Let_def split: if_splits)
      from IH7 [OF l] False \<open>len = Num 0\<close> IH1 [OF p] show ?thesis
        by (subst extractText_loop.simps) (auto simp: Let_def)
    qed
  qed
  have P8: "extractList (Suc (Suc fuel)) f offset = Some r"
    if a: "extractList (Suc fuel) f offset = Some r" for f offset r
  proof -
    from a have l: "extractList_loop fuel f (offset + Num 4) 0
        (parseInt_hex (subarray f offset (offset + Num 4))) [] = Some r"
      by (simp add: extractList.simps Let_def)
    from IH9 [OF l] show ?thesis
      by (subst extractList.simps) (simp add: Let_def)
  qed
  have P9: "extractList_loop (Suc (Suc fuel)) f offset i n ps = Some r"
    if a: "extractList_loop (Suc fuel) f offset i n ps = Some r" for f offset i n ps r
  proof (cases "Num i < n")
    case True
    with a obtain p off1
      where p: "extractPropertyValue fuel f offset (Buffer_from_ascii (number_toString i))
                  = Some (p, off1)"
        and l: "extractList_loop fuel f off1 (Suc i) n
                  (ps @ [get_property p (number_toString i)]) = Some r"
      by (auto simp: extractList_loop.simps Let_def split: option.splits prod.splits)
    from IH2 [OF p] IH9 [OF l] True show ?thesis
      by (subst extractList_loop.simps) (simp add: Let_def)
  next
    case False
    with a show ?thesis
      by (subst extractList_loop.simps) (simp add: extractList_loop.simps)
  qed
  show ?case
    by (intro conjI allI impI) (erule P1 P2 P3 P4 P5 P6 P7 P8 P9)+
qed


lemma extractProperty_Suc:
  "extractProperty fuel file offset = Some r \<Longrightarrow> extractProperty (Suc fuel) file offset = Some r"
  by (rule budget_Suc [THEN conjunct1, rule_format])

lemma extractText_Suc:
  "extractText fuel file offset = Some r \<Longrightarrow> extractText (Suc fuel) file offset = Some r"
  by (rule budget_Suc [THEN conjunct2, THEN conjunct2, THEN conjunct2, THEN conjunct2,
        THEN conjunct2, THEN conjunct1, rule_format])

lemma readTool_properties_loop_Suc:
  "readTool_properties_loop fuel file offset i n ps = Some r
   \<Longrightarrow> readTool_properties_loop (Suc fuel) file offset i n ps = Some r"
proof (induction fuel arbitrary: offset i ps)
  case 0
  then show ?case by (simp add: readTool_properties_loop.simps)
next
  case (Suc fuel)
  show ?case
  proof (cases "Num i < n")
    case True
    with Suc.prems obtain p off1 where p: "extractProperty fuel file offset = Some (p, off1)"
      and l: "readTool_properties_loop fuel file off1 (Suc i) n (ps @ [p]) = Some r"
      by (auto simp: readTool_properties_loop.simps split: option.splits prod.splits)
    from extractProperty_Suc [OF p] Suc.IH [OF l] True show ?thesis
      by (subst readTool_properties_loop.simps) simp
  next
    case False
    with Suc.prems show ?thesis
      by (subst readTool_properties_loop.simps) (simp add: readTool_properties_loop.simps)
  qed
qed

lemma readTool_loop_Suc:
  "readTool_loop fuel file offset tpl = Some r
   \<Longrightarrow> readTool_loop (Suc fuel) file offset tpl = Some r"
proof (induction fuel arbitrary: offset tpl)
  case 0
  then show ?case by (simp add: readTool_loop.simps)
next
  case (Suc fuel)
  from Suc.prems obtain toolName off1 where t: "extractText fuel file offset = Some (toolName, off1)"
    by (auto simp: readTool_loop.simps split: option.splits)
  obtain toolTypeBuffer off2 where l: "extractLabel file (off1 + Num 10) = (toolTypeBuffer, off2)"
    by (cases "extractLabel file (off1 + Num 10)")
  let ?toolType = "trim (toString_ascii toolTypeBuffer)"
  let ?tpl = "if \<not> tpl_truthy tpl ?toolType then tpl @ [(?toolType, [])] else tpl"
  let ?count = "parseInt_hex (subarray file off2 (off2 + Num 4))"
  from Suc.prems t l obtain properties off3
    where ps: "readTool_properties_loop fuel file (off2 + Num 4) 0 ?count [] = Some (properties, off3)"
    by (auto simp: readTool_loop.simps Let_def split: option.splits)
  let ?tool = "Object [(''name'', String (split_eq_pop toolName)), (''properties'', Array properties)]"
  show ?case
  proof (cases "tpl_push ?tpl ?toolType ?tool")
    case (Inl e)
    with Suc.prems t l ps have "r = Inl e"
      by (simp add: readTool_loop.simps Let_def)
    with extractText_Suc [OF t] l readTool_properties_loop_Suc [OF ps] Inl show ?thesis
      by (subst readTool_loop.simps) (simp add: Let_def)
  next
    case (Inr tpl')
    show ?thesis
    proof (cases "length (subarray file off3 (off3 + Num 4)) \<noteq> 4")
      case True
      with Suc.prems t l ps Inr have "r = Inr (tpl', off3)"
        by (simp add: readTool_loop.simps Let_def)
      with extractText_Suc [OF t] l readTool_properties_loop_Suc [OF ps] Inr True show ?thesis
        by (subst readTool_loop.simps) (simp add: Let_def)
    next
      case False
      with Suc.prems t l ps Inr have "readTool_loop fuel file off3 tpl' = Some r"
        by (simp add: readTool_loop.simps Let_def)
      from Suc.IH [OF this] extractText_Suc [OF t] l readTool_properties_loop_Suc [OF ps] Inr False
      show ?thesis
        by (subst readTool_loop.simps) (simp add: Let_def)
    qed
  qed
qed

lemma readTpl_Suc: "readTpl fuel file = Some r \<Longrightarrow> readTpl (Suc fuel) file = Some r"
  by (auto simp: readTpl_def readTool_def Let_def
      split: prod.splits if_splits option.splits sum.splits dest: readTool_loop_Suc)

lemma readTpl_budget:
  assumes "readTpl fuel file = Some r" and "fuel \<le> fuel'"
  shows "readTpl fuel' file = Some r"
  using assms(2,1) by (induction rule: dec_induct) (simp_all add: readTpl_Suc)

section \<open>Labels of length 0\<close>

text \<open>
  C4, as far as it holds. When the length that \<^verbatim>\<open>extractLabel\<close> reads is 0, the offset is a
  number inside the buffer, the label is the next 4 bytes of the buffer as far as the
  buffer has them, and the returned offset is the input offset plus 8. The label has
  exactly 4 bytes when the buffer reaches 8 bytes past the offset; \<^verbatim>\<open>subarray\<close> returns
  fewer when the buffer ends before.
\<close>

theorem extractLabel_zero_length:
  assumes "parseInt_hex (subarray file offset (offset + Num 4)) = Num 0"
  shows "\<exists>n. offset = Num n \<and> n < length file
           \<and> extractLabel file offset = (take 4 (drop (n + 4) file), Num (n + 8))
           \<and> (n + 8 \<le> length file \<longrightarrow> length (fst (extractLabel file offset)) = 4)"
proof (cases offset)
  case NaN
  with assms show ?thesis by simp
next
  case (Num n)
  have "n < length file"
  proof (rule ccontr)
    assume "\<not> n < length file"
    then have "subarray file (Num n) (Num (n + 4)) = []"
      by (simp add: subarray_past_end)
    with assms Num show False by simp
  qed
  moreover have "extractLabel file offset = (take 4 (drop (n + 4) file), Num (n + 8))"
    using assms Num by (simp add: extractLabel_def subarray_Num)
  ultimately show ?thesis using Num by simp
qed

theorem extractLabel_zero_length_witness:
  "parseInt_hex (subarray [0, 0, 0, 0, 1, 2, 3, 4] (Num 0) (Num 0 + Num 4)) = Num 0
   \<and> extractLabel [0, 0, 0, 0, 1, 2, 3, 4] (Num 0) = ([1, 2, 3, 4], Num 8)
   \<and> length (fst (extractLabel [0, 0, 0, 0, 1, 2, 3, 4] (Num 0))) = 4"
proof -
  have h: "parseInt_hex (subarray [0, 0, 0, 0, 1, 2, 3, 4] (Num 0) (Num 0 + Num 4)) = Num 0"
    by (simp add: subarray_Num parseInt_hex_def be_nat_def to_double_def)
  show ?thesis
    using h extractLabel_zero_length [OF h] by simp
qed

text \<open>
  C4 as it is written fails on a buffer that ends less than 8 bytes after the offset:
  four zero bytes are a length of 0, and the label that follows them is empty.
\<close>

theorem extractLabel_zero_length_counterexample:
  "parseInt_hex (subarray [0, 0, 0, 0] (Num 0) (Num 0 + Num 4)) = Num 0
   \<and> length (fst (extractLabel [0, 0, 0, 0] (Num 0))) \<noteq> 4"
  by (simp add: extractLabel_def subarray_Num parseInt_hex_def be_nat_def to_double_def)

section \<open>Locating the tool section\<close>

lemma lastIndexOf_from_found:
  "take (length val) (drop i file) = val \<Longrightarrow> i \<le> k
   \<Longrightarrow> (\<And>j. i < j \<Longrightarrow> j \<le> k \<Longrightarrow> take (length val) (drop j file) \<noteq> val)
   \<Longrightarrow> lastIndexOf_from file val k = int i"
proof (induction k)
  case 0
  then show ?case by simp
next
  case (Suc k)
  show ?case
  proof (cases "i = Suc k")
    case True
    with Suc.prems show ?thesis by simp
  next
    case False
    with Suc.prems have "i \<le> k" by simp
    moreover have "take (length val) (drop (Suc k) file) \<noteq> val"
      using Suc.prems False by simp
    ultimately show ?thesis using Suc by simp
  qed
qed

lemma lastIndexOf_from_none:
  "(\<And>j. j \<le> k \<Longrightarrow> take (length val) (drop j file) \<noteq> val)
   \<Longrightarrow> lastIndexOf_from file val k = - 1"
  by (induction k) simp_all

lemma occurrence_fits:
  assumes "take (length val) (drop i file) = val"
  shows "i + length val \<le> length file \<or> val = []"
proof -
  have "length (take (length val) (drop i file)) = length val"
    using assms by simp
  then show ?thesis by (cases val) auto
qed

lemma lastIndexOf_last:
  assumes "val \<noteq> []" "take (length val) (drop i file) = val"
    and "\<And>j. take (length val) (drop j file) = val \<Longrightarrow> j \<le> i"
  shows "lastIndexOf file val = int i"
proof -
  from occurrence_fits [OF assms(2)] assms(1) have fit: "i + length val \<le> length file"
    by simp
  have "lastIndexOf_from file val (length file - length val) = int i"
  proof (rule lastIndexOf_from_found [OF assms(2)])
    show "i \<le> length file - length val" using fit by simp
  next
    fix j assume "i < j" "j \<le> length file - length val"
    then show "take (length val) (drop j file) \<noteq> val"
      using assms(3) [of j] by auto
  qed
  then show ?thesis using fit by (simp add: lastIndexOf_def)
qed

lemma lastIndexOf_absent:
  assumes "\<And>j. take (length val) (drop j file) \<noteq> val"
  shows "lastIndexOf file val = - 1"
  using assms by (simp add: lastIndexOf_def lastIndexOf_from_none)

text \<open>
  C5. When the marker \<^verbatim>\<open>8BIMtptp\<close> occurs in the buffer and \<open>i\<close> is the start of its last
  occurrence, \<^verbatim>\<open>moveToToolDataSection\<close> returns \<^verbatim>\<open>true\<close> and the offset \<open>i + 16\<close>; when the
  marker occurs nowhere, it returns \<^verbatim>\<open>false\<close>.
\<close>

theorem moveToToolDataSection_last_occurrence:
  "(take 8 (drop i file) = Buffer_from_ascii ''8BIMtptp''
      \<and> (\<forall>j. take 8 (drop j file) = Buffer_from_ascii ''8BIMtptp'' \<longrightarrow> j \<le> i)
     \<longrightarrow> moveToToolDataSection file = (True, Num (i + 16)))
   \<and> ((\<forall>j. take 8 (drop j file) \<noteq> Buffer_from_ascii ''8BIMtptp'')
     \<longrightarrow> moveToToolDataSection file = (False, Num 0))"
proof (intro conjI impI)
  assume a: "take 8 (drop i file) = Buffer_from_ascii ''8BIMtptp''
      \<and> (\<forall>j. take 8 (drop j file) = Buffer_from_ascii ''8BIMtptp'' \<longrightarrow> j \<le> i)"
  have len: "length (Buffer_from_ascii ''8BIMtptp'') = 8"
    by (simp add: Buffer_from_ascii_def)
  have "lastIndexOf file (Buffer_from_ascii ''8BIMtptp'') = int i"
  proof (rule lastIndexOf_last)
    show "Buffer_from_ascii ''8BIMtptp'' \<noteq> []" by (simp add: Buffer_from_ascii_def)
    show "take (length (Buffer_from_ascii ''8BIMtptp'')) (drop i file) = Buffer_from_ascii ''8BIMtptp''"
      using a len by simp
    fix j assume "take (length (Buffer_from_ascii ''8BIMtptp'')) (drop j file) = Buffer_from_ascii ''8BIMtptp''"
    then show "j \<le> i" using a len by simp
  qed
  then show "moveToToolDataSection file = (True, Num (i + 16))"
    by (simp add: moveToToolDataSection_def Let_def nat_add_distrib)
next
  assume a: "\<forall>j. take 8 (drop j file) \<noteq> Buffer_from_ascii ''8BIMtptp''"
  have len: "length (Buffer_from_ascii ''8BIMtptp'') = 8"
    by (simp add: Buffer_from_ascii_def)
  have "lastIndexOf file (Buffer_from_ascii ''8BIMtptp'') = - 1"
    by (rule lastIndexOf_absent) (use a len in simp)
  then show "moveToToolDataSection file = (False, Num 0)"
    by (simp add: moveToToolDataSection_def Let_def)
qed

text \<open>The marker at offsets 10 and 200: the offset is \<open>200 + 16\<close>.\<close>

theorem moveToToolDataSection_last_occurrence_witness:
  "moveToToolDataSection
     (replicate 10 0 @ Buffer_from_ascii ''8BIMtptp'' @ replicate 182 0
        @ Buffer_from_ascii ''8BIMtptp'') = (True, Num (200 + 16))
   \<and> take 8 (drop 10 (replicate 10 0 @ Buffer_from_ascii ''8BIMtptp'' @ replicate 182 0
        @ Buffer_from_ascii ''8BIMtptp'')) = Buffer_from_ascii ''8BIMtptp''
   \<and> moveToToolDataSection [] = (False, Num 0)"
proof -
  let ?m = "Buffer_from_ascii ''8BIMtptp''"
  let ?f = "replicate 10 0 @ ?m @ replicate 182 0 @ ?m"
  have len: "length ?m = 8" by (simp add: Buffer_from_ascii_def)
  have lf: "length ?f = 208" using len by simp
  have at10: "take 8 (drop 10 ?f) = ?m" using len by simp
  have at200: "take 8 (drop 200 ?f) = ?m" using len by simp
  have last: "\<forall>j. take 8 (drop j ?f) = ?m \<longrightarrow> j \<le> 200"
  proof (intro allI impI)
    fix j assume "take 8 (drop j ?f) = ?m"
    then have "length (take 8 (drop j ?f)) = length ?m" by (rule arg_cong)
    then have "min (length ?f - j) 8 = 8" by (simp only: length_take length_drop len)
    with lf show "j \<le> 200" by simp
  qed
  have none: "\<forall>j. take 8 (drop j ([]::buffer)) \<noteq> ?m"
    by (simp add: Buffer_from_ascii_def)
  show ?thesis
    using moveToToolDataSection_last_occurrence [of 200 ?f] at10 at200 last
      moveToToolDataSection_last_occurrence [of 0 "[]"] none
    by simp
qed

section \<open>Null properties and unsupported tags\<close>

lemma null_label:
  assumes "toString_ascii (fst (extractLabel file offset)) = ''null''"
  shows "\<exists>n L. offset = Num n
           \<and> parseInt_hex (subarray file offset (offset + Num 4)) = Num L
           \<and> n + 8 \<le> length file
           \<and> extractLabel file offset
               = (take 4 (drop (n + 4) file), Num (n + 4 + (if L = 0 then 4 else L)))
           \<and> (L = 0 \<or> L = 4 \<or> (4 < L \<and> length file = n + 8))"
proof -
  from assms have "length (toString_ascii (fst (extractLabel file offset))) = 4" by simp
  then have len4: "length (fst (extractLabel file offset)) = 4" by simp
  show ?thesis
  proof (cases "parseInt_hex (subarray file offset (offset + Num 4))")
    case NaN
    then have "fst (extractLabel file offset) = []"
      by (simp add: extractLabel_def Let_def)
    with len4 show ?thesis by simp
  next
    case (Num L)
    then obtain n where n: "offset = Num n"
      by (cases offset) simp_all
    show ?thesis
    proof (cases "L = 0")
      case True
      with Num n have l: "extractLabel file offset = (take 4 (drop (n + 4) file), Num (n + 8))"
        by (simp add: extractLabel_def Let_def subarray_Num)
      with len4 have "n + 8 \<le> length file" by simp
      with Num n True l show ?thesis by simp
    next
      case False
      with Num n have l: "extractLabel file offset = (take L (drop (n + 4) file), Num (n + 4 + L))"
        by (simp add: extractLabel_def Let_def subarray_Num)
      with len4 have m: "min (length file - (n + 4)) L = 4" by simp
      then have fit: "n + 8 \<le> length file" and L: "4 \<le> L" by simp_all
      from m have shape: "L = 4 \<or> (4 < L \<and> length file = n + 8)" by (auto simp: min_def split: if_splits)
      from m have "take L (drop (n + 4) file) = take 4 (drop (n + 4) file)"
        by (auto simp: min_def split: if_splits)
      with Num n False l fit shape show ?thesis by simp
    qed
  qed
qed

text \<open>
  C7, as far as it holds. When the label that \<^verbatim>\<open>extractProperty\<close> reads as the property
  name at the offset \<open>n\<close> decodes to \<^verbatim>\<open>null\<close>, the buffer holds at least \<open>n + 8\<close> bytes, the
  label is the 4 bytes at \<open>n + 4\<close>, the result is the empty object, and the returned offset
  is \<open>n + 4 + L\<close> for the length \<open>L\<close> read at \<open>n\<close> (and \<open>n + 8\<close> for \<open>L = 0\<close>). This is the
  position right after the label, \<open>n + 8\<close>, when \<open>L\<close> is 0 or 4; the only other case is a
  length greater than 4 on a buffer that ends right after the 4 label bytes, where the
  returned offset lies past the end of the buffer.
\<close>

theorem extractProperty_null:
  assumes "toString_ascii (fst (extractLabel file offset)) = ''null''"
  shows "\<exists>n L. offset = Num n
           \<and> parseInt_hex (subarray file offset (offset + Num 4)) = Num L
           \<and> n + 8 \<le> length file
           \<and> fst (extractLabel file offset) = take 4 (drop (n + 4) file)
           \<and> extractProperty (Suc fuel) file offset
               = Some (Object [], Num (n + 4 + (if L = 0 then 4 else L)))
           \<and> (L = 0 \<or> L = 4 \<or> (4 < L \<and> length file = n + 8))"
proof -
  from null_label [OF assms] obtain n L where "offset = Num n"
    and "parseInt_hex (subarray file offset (offset + Num 4)) = Num L"
    and "n + 8 \<le> length file"
    and l: "extractLabel file offset
               = (take 4 (drop (n + 4) file), Num (n + 4 + (if L = 0 then 4 else L)))"
    and "L = 0 \<or> L = 4 \<or> (4 < L \<and> length file = n + 8)"
    by blast
  moreover from assms l have "extractProperty (Suc fuel) file offset
               = Some (Object [], Num (n + 4 + (if L = 0 then 4 else L)))"
    by (simp add: extractProperty.simps)
  moreover from l have "fst (extractLabel file offset) = take 4 (drop (n + 4) file)" by simp
  ultimately show ?thesis by blast
qed

theorem extractProperty_null_witness:
  "toString_ascii (fst (extractLabel ([0, 0, 0, 4] @ Buffer_from_ascii ''null'' @ [7, 7]) (Num 0))) = ''null''
   \<and> extractProperty (Suc 0) ([0, 0, 0, 4] @ Buffer_from_ascii ''null'' @ [7, 7]) (Num 0)
       = Some (Object [], Num 8)"
proof -
  let ?f = "[0, 0, 0, 4] @ Buffer_from_ascii ''null'' @ [7, 7]"
  have l: "extractLabel ?f (Num 0) = (Buffer_from_ascii ''null'', Num 8)"
    by (simp add: extractLabel_def subarray_Num parseInt_hex_def be_nat_def to_double_def
        length_Buffer_from_ascii)
  have h: "toString_ascii (fst (extractLabel ?f (Num 0))) = ''null''"
    unfolding l by (simp add: toString_ascii_Buffer_from_ascii)
  have p: "parseInt_hex (subarray ?f (Num 0) (Num 0 + Num 4)) = Num 4"
    by (simp add: subarray_Num parseInt_hex_def be_nat_def to_double_def)
  from extractProperty_null [OF h, of 0] obtain n L where "Num 0 = Num n"
    and "parseInt_hex (subarray ?f (Num 0) (Num 0 + Num 4)) = Num L"
    and "extractProperty (Suc 0) ?f (Num 0) = Some (Object [], Num (n + 4 + (if L = 0 then 4 else L)))"
    by blast
  with p have "extractProperty (Suc 0) ?f (Num 0) = Some (Object [], Num 8)" by simp
  with h show ?thesis by simp
qed

text \<open>
  C7 as it is written fails for a length that reaches past the end of the buffer. On the
  8 bytes \<^verbatim>\<open>00 00 00 09\<close> \<^verbatim>\<open>null\<close> the length read is 9, the label is cut to the 4 bytes
  left, which decode to \<^verbatim>\<open>null\<close>, and the returned offset is 13: not the position 8 right
  after the label.
\<close>

theorem extractProperty_null_counterexample:
  "toString_ascii (fst (extractLabel ([0, 0, 0, 9] @ Buffer_from_ascii ''null'') (Num 0))) = ''null''
   \<and> length ([0, 0, 0, 9] @ Buffer_from_ascii ''null'') = 8
   \<and> fst (extractLabel ([0, 0, 0, 9] @ Buffer_from_ascii ''null'') (Num 0))
       = take 4 (drop 4 ([0, 0, 0, 9] @ Buffer_from_ascii ''null''))
   \<and> extractProperty (Suc 0) ([0, 0, 0, 9] @ Buffer_from_ascii ''null'') (Num 0)
       = Some (Object [], Num 13)"
proof -
  let ?f = "[0, 0, 0, 9] @ Buffer_from_ascii ''null''"
  have l: "extractLabel ?f (Num 0) = (Buffer_from_ascii ''null'', Num 13)"
    by (simp add: extractLabel_def subarray_Num parseInt_hex_def be_nat_def to_double_def
        length_Buffer_from_ascii)
  have h: "toString_ascii (fst (extractLabel ?f (Num 0))) = ''null''"
    unfolding l by (simp add: toString_ascii_Buffer_from_ascii)
  have b: "fst (extractLabel ?f (Num 0)) = take 4 (drop 4 ?f)"
    unfolding l by (simp add: length_Buffer_from_ascii)
  from h l b show ?thesis
    by (simp add: extractProperty.simps length_Buffer_from_ascii)
qed

lemma extractOsTypeValue_unsupported:
  assumes "ty \<in> set unsupported"
  shows "extractOsTypeValue (Suc fuel) file off nm ty = Some (None, off)"
proof -
  have "ty \<noteq> ''Objc''" "ty \<noteq> ''VlLs''" "ty \<noteq> ''doub''" "ty \<noteq> ''UntF''" "ty \<noteq> ''TEXT''"
    "ty \<noteq> ''enum''" "ty \<noteq> ''long''" "ty \<noteq> ''comp''" "ty \<noteq> ''bool''"
    using assms by (auto simp: unsupported_def)
  then show ?thesis
    using assms by (simp only: extractOsTypeValue.simps if_False if_True)
qed


text \<open>
  C8. For a type tag among \<^verbatim>\<open>type\<close>, \<^verbatim>\<open>GlbC\<close>, \<^verbatim>\<open>obj \<close>, \<^verbatim>\<open>alis\<close> and \<^verbatim>\<open>tdta\<close>,
  \<^verbatim>\<open>extractOsTypeValue\<close> returns \<^verbatim>\<open>null\<close> and its offset unchanged, and
  \<^verbatim>\<open>extractPropertyValue\<close> returns the empty object and its offset advanced by the 4 bytes
  of the tag.
\<close>

theorem unsupported_tags_tolerated:
  "(propertyType \<in> set unsupported
      \<longrightarrow> extractOsTypeValue (Suc fuel) file offset' name propertyType = Some (None, offset'))
   \<and> (toString_ascii (subarray file offset (offset + Num 4)) \<in> set unsupported
      \<longrightarrow> extractPropertyValue (Suc (Suc fuel)) file offset propertyName
            = Some (Object [], offset + Num 4))"
proof (intro conjI impI)
  assume "propertyType \<in> set unsupported"
  then show "extractOsTypeValue (Suc fuel) file offset' name propertyType = Some (None, offset')"
    by (rule extractOsTypeValue_unsupported)
next
  assume "toString_ascii (subarray file offset (offset + Num 4)) \<in> set unsupported"
  then have "extractOsTypeValue (Suc fuel) file (offset + Num 4)
               (trim (toString_ascii propertyName))
               (toString_ascii (subarray file offset (offset + Num 4)))
             = Some (None, offset + Num 4)"
    by (rule extractOsTypeValue_unsupported)
  then show "extractPropertyValue (Suc (Suc fuel)) file offset propertyName
               = Some (Object [], offset + Num 4)"
    by (simp only: extractPropertyValue.simps Let_def option.case prod.case)
qed

theorem unsupported_tags_tolerated_witness:
  "''tdta'' \<in> set unsupported
   \<and> extractOsTypeValue (Suc 0) (Buffer_from_ascii ''tdta'') (Num 4) ''Nm'' ''tdta''
       = Some (None, Num 4)
   \<and> toString_ascii (subarray (Buffer_from_ascii ''tdta'') (Num 0) (Num 0 + Num 4)) \<in> set unsupported
   \<and> extractPropertyValue (Suc (Suc 0)) (Buffer_from_ascii ''tdta'') (Num 0) (Buffer_from_ascii ''Nm  '')
       = Some (Object [], Num 4)"
proof -
  have a: "''tdta'' \<in> set unsupported" by (simp add: unsupported_def)
  have b: "toString_ascii (subarray (Buffer_from_ascii ''tdta'') (Num 0) (Num 0 + Num 4))
             \<in> set unsupported"
    by (simp add: subarray_Num toString_ascii_Buffer_from_ascii unsupported_def
        length_Buffer_from_ascii)
  show ?thesis
    using a b
      unsupported_tags_tolerated [of "''tdta''" 0 "Buffer_from_ascii ''tdta''" "Num 4" "''Nm''"
        "Num 0" "Buffer_from_ascii ''Nm  ''"]
    by simp
qed

section \<open>The scan for a placeholder\<close>

lemma scan_never_returns:
  assumes "offset = NaN \<or> (\<exists>n. offset = Num n \<and> length file \<le> n)"
    and "\<not> list_ex (endsWith prefix) placeholders"
  shows "extractUntilPlaceholder file offset prefix = None"
proof (rule ccontr)
  assume "extractUntilPlaceholder file offset prefix \<noteq> None"
  then obtain y where y: "extractUntilPlaceholder file offset prefix = Some y" by auto
  have "(offset = NaN \<or> (\<exists>n. offset = Num n \<and> length file \<le> n))
          \<longrightarrow> list_ex (endsWith prefix) placeholders"
  proof (rule extractUntilPlaceholder.raw_induct
      [where P = "\<lambda>f off acc res. (off = NaN \<or> (\<exists>n. off = Num n \<and> length f \<le> n))
                     \<longrightarrow> list_ex (endsWith acc) placeholders", OF _ y])
    fix scan f off acc res
    assume IH: "\<And>f off acc res. scan f off acc = Some res \<Longrightarrow>
                 (off = NaN \<or> (\<exists>n. off = Num n \<and> length f \<le> n))
                   \<longrightarrow> list_ex (endsWith acc) placeholders"
      and body: "(let extractedText = acc @ toString_ascii (subarray f off (off + Num 1));
                      offset = off + Num 1
                  in if list_ex (endsWith extractedText) placeholders
                     then let placeholderLength = length (placeholders ! 0)
                          in Some (slice_to_neg extractedText placeholderLength,
                                   slice_from_neg extractedText placeholderLength, offset)
                     else scan f offset extractedText) = Some res"
    show "(off = NaN \<or> (\<exists>n. off = Num n \<and> length f \<le> n))
            \<longrightarrow> list_ex (endsWith acc) placeholders"
    proof (intro impI, rule ccontr)
      assume past: "off = NaN \<or> (\<exists>n. off = Num n \<and> length f \<le> n)"
        and nomatch: "\<not> list_ex (endsWith acc) placeholders"
      from past have empty: "subarray f off (off + Num 1) = []"
        by (auto simp: subarray_past_end)
      from past have past': "off + Num 1 = NaN \<or> (\<exists>n. off + Num 1 = Num n \<and> length f \<le> n)"
        by auto
      from body empty nomatch have "scan f (off + Num 1) acc = Some res"
        by (simp add: Let_def)
      from IH [OF this] past' nomatch show False by blast
    qed
  qed
  with assms show False by simp
qed

lemma toString_ascii_append:
  "toString_ascii (a @ b) = toString_ascii a @ toString_ascii b"
  by (simp add: toString_ascii_def)

lemma take_Suc_drop:
  "take (Suc 0) (drop n xs) @ take k (drop (Suc n) xs) = take (Suc k) (drop n xs)"
proof -
  have "take (Suc 0 + k) (drop n xs)
          = take (Suc 0) (drop n xs) @ take k (drop (Suc 0) (drop n xs))"
    by (rule take_add)
  then show ?thesis by simp
qed

lemma first_placeholder_length: "length (placeholders ! 0) = 4"
  by (simp add: placeholders_def)

text \<open>
  One round of the scan from a numeric offset. After \<open>k + 1\<close> rounds from the offset \<open>n\<close>
  the accumulated text is the prefix followed by the decoding of the bytes
  \<^verbatim>\<open>take (k + 1) (drop n file)\<close>: past the end of the buffer a round appends nothing.
\<close>

lemma scan_round:
  "extractUntilPlaceholder file (Num n) acc =
     (if list_ex (endsWith (acc @ toString_ascii (take (Suc 0) (drop n file)))) placeholders
      then Some (slice_to_neg (acc @ toString_ascii (take (Suc 0) (drop n file))) 4,
                 slice_from_neg (acc @ toString_ascii (take (Suc 0) (drop n file))) 4, Num (Suc n))
      else extractUntilPlaceholder file (Num (Suc n)) (acc @ toString_ascii (take (Suc 0) (drop n file))))"
  by (subst extractUntilPlaceholder.simps) (simp add: Let_def subarray_Num first_placeholder_length)

lemma scan_returns_match:
  assumes "extractUntilPlaceholder file (Num n) prefix = Some res"
  shows "\<exists>k. list_ex (endsWith (prefix @ toString_ascii (take (Suc k) (drop n file)))) placeholders"
proof -
  have "\<forall>n. off = Num n \<longrightarrow>
          (\<exists>k. list_ex (endsWith (acc @ toString_ascii (take (Suc k) (drop n f)))) placeholders)"
    if "extractUntilPlaceholder f off acc = Some r" for f off acc r
  proof (rule extractUntilPlaceholder.raw_induct
      [where P = "\<lambda>f off acc res. \<forall>n. off = Num n \<longrightarrow>
          (\<exists>k. list_ex (endsWith (acc @ toString_ascii (take (Suc k) (drop n f)))) placeholders)",
        OF _ that])
    fix scan f off acc res
    assume IH: "\<And>f off acc res. scan f off acc = Some res \<Longrightarrow>
          \<forall>n. off = Num n \<longrightarrow>
            (\<exists>k. list_ex (endsWith (acc @ toString_ascii (take (Suc k) (drop n f)))) placeholders)"
      and body: "(let extractedText = acc @ toString_ascii (subarray f off (off + Num 1));
                      offset = off + Num 1
                  in if list_ex (endsWith extractedText) placeholders
                     then let placeholderLength = length (placeholders ! 0)
                          in Some (slice_to_neg extractedText placeholderLength,
                                   slice_from_neg extractedText placeholderLength, offset)
                     else scan f offset extractedText) = Some res"
    show "\<forall>n. off = Num n \<longrightarrow>
          (\<exists>k. list_ex (endsWith (acc @ toString_ascii (take (Suc k) (drop n f)))) placeholders)"
    proof (intro allI impI)
      fix n assume off: "off = Num n"
      let ?t = "acc @ toString_ascii (take (Suc 0) (drop n f))"
      show "\<exists>k. list_ex (endsWith (acc @ toString_ascii (take (Suc k) (drop n f)))) placeholders"
      proof (cases "list_ex (endsWith ?t) placeholders")
        case True
        then have "list_ex (endsWith (acc @ toString_ascii (take (Suc 0) (drop n f)))) placeholders"
          by simp
        then show ?thesis ..
      next
        case False
        with body off have "scan f (Num (Suc n)) ?t = Some res"
          by (simp add: Let_def subarray_Num)
        from IH [OF this] obtain k
          where "list_ex (endsWith (?t @ toString_ascii (take (Suc k) (drop (Suc n) f)))) placeholders"
          by blast
        then have "list_ex (endsWith (acc @ toString_ascii (take (Suc (Suc k)) (drop n f)))) placeholders"
          by (simp add: toString_ascii_append [symmetric] take_Suc_drop)
        then show ?thesis ..
      qed
    qed
  qed
  from this [OF assms] show ?thesis by simp
qed

lemma scan_NaN_returns_match:
  assumes "extractUntilPlaceholder file NaN prefix = Some res"
  shows "list_ex (endsWith prefix) placeholders"
proof (rule ccontr)
  assume "\<not> list_ex (endsWith prefix) placeholders"
  then have "extractUntilPlaceholder file NaN prefix = None"
    by (intro scan_never_returns) simp_all
  with assms show False by simp
qed

lemma scan_first_match:
  assumes "list_ex (endsWith (prefix @ toString_ascii (take (Suc k) (drop n file)))) placeholders"
    and "\<forall>j<k. \<not> list_ex (endsWith (prefix @ toString_ascii (take (Suc j) (drop n file)))) placeholders"
  shows "extractUntilPlaceholder file (Num n) prefix
           = Some (slice_to_neg (prefix @ toString_ascii (take (Suc k) (drop n file))) 4,
                   slice_from_neg (prefix @ toString_ascii (take (Suc k) (drop n file))) 4,
                   Num (n + Suc k))"
  using assms
proof (induction k arbitrary: n prefix)
  case 0
  then show ?case by (subst scan_round) simp
next
  case (Suc k)
  let ?t = "prefix @ toString_ascii (take (Suc 0) (drop n file))"
  from Suc.prems(2) have first: "\<not> list_ex (endsWith ?t) placeholders"
    by (auto dest: spec [of _ 0])
  have shift: "?t @ toString_ascii (take (Suc j) (drop (Suc n) file))
                 = prefix @ toString_ascii (take (Suc (Suc j)) (drop n file))" for j
    by (simp add: toString_ascii_append [symmetric] take_Suc_drop)
  have "extractUntilPlaceholder file (Num (Suc n)) ?t
          = Some (slice_to_neg (?t @ toString_ascii (take (Suc k) (drop (Suc n) file))) 4,
                  slice_from_neg (?t @ toString_ascii (take (Suc k) (drop (Suc n) file))) 4,
                  Num (Suc n + Suc k))"
  proof (rule Suc.IH)
    show "list_ex (endsWith (?t @ toString_ascii (take (Suc k) (drop (Suc n) file)))) placeholders"
      using Suc.prems(1) by (simp only: shift)
    show "\<forall>j<k. \<not> list_ex (endsWith (?t @ toString_ascii (take (Suc j) (drop (Suc n) file)))) placeholders"
      using Suc.prems(2) by (simp only: shift) auto
  qed
  with first show ?case
    by (subst scan_round) (simp only: shift if_False, simp)
qed

lemma scan_exhausts:
  assumes "\<forall>k\<le>length file - n.
             \<not> list_ex (endsWith (prefix @ toString_ascii (take (Suc k) (drop n file)))) placeholders"
  shows "extractUntilPlaceholder file (Num n) prefix = None"
proof (rule ccontr)
  assume "extractUntilPlaceholder file (Num n) prefix \<noteq> None"
  then obtain res where "extractUntilPlaceholder file (Num n) prefix = Some res" by auto
  from scan_returns_match [OF this] obtain k
    where k: "list_ex (endsWith (prefix @ toString_ascii (take (Suc k) (drop n file)))) placeholders"
    by blast
  show False
  proof (cases "k \<le> length file - n")
    case True
    with assms k show False by blast
  next
    case False
    then have "take (Suc k) (drop n file) = take (Suc (length file - n)) (drop n file)"
      by simp
    with k have "list_ex (endsWith (prefix @ toString_ascii
        (take (Suc (length file - n)) (drop n file)))) placeholders"
      by (simp only:)
    moreover from assms have "\<not> list_ex (endsWith (prefix @ toString_ascii
        (take (Suc (length file - n)) (drop n file)))) placeholders"
      by blast
    ultimately show False by (rule notE [rotated])
  qed
qed

lemma take_Buffer_from_ascii: "take n (Buffer_from_ascii s) = Buffer_from_ascii (take n s)"
  by (simp add: Buffer_from_ascii_def take_map)

lemma drop_Buffer_from_ascii: "drop n (Buffer_from_ascii s) = Buffer_from_ascii (drop n s)"
  by (simp add: Buffer_from_ascii_def drop_map)

lemmas text_eval = take_Buffer_from_ascii drop_Buffer_from_ascii toString_ascii_Buffer_from_ascii
  length_Buffer_from_ascii placeholders_def endsWith_def

text \<open>
  C3, as far as it holds. The scan has no bound and raises nothing. From a numeric offset
  \<open>n\<close>, when the accumulated text ends in no placeholder after any of the rounds up to the
  end of the buffer, the scan never returns: every further round appends the empty string.
  From the offset \<^verbatim>\<open>NaN\<close> it never returns unless the prefix itself ends in a placeholder.
  When some round does end in a placeholder, the scan returns at the first such round
  \<open>k\<close>, with the accumulated text cut 4 characters before its end and the offset
  \<open>n + k + 1\<close>.
\<close>

theorem scan_unbounded:
  "((\<forall>k\<le>length file - n.
        \<not> list_ex (endsWith (prefix @ toString_ascii (take (Suc k) (drop n file)))) placeholders)
      \<longrightarrow> extractUntilPlaceholder file (Num n) prefix = None)
   \<and> (\<not> list_ex (endsWith prefix) placeholders
      \<longrightarrow> extractUntilPlaceholder file NaN prefix = None)
   \<and> (list_ex (endsWith (prefix @ toString_ascii (take (Suc k) (drop n file)))) placeholders
        \<and> (\<forall>j<k. \<not> list_ex (endsWith (prefix @ toString_ascii (take (Suc j) (drop n file))))
                      placeholders)
      \<longrightarrow> extractUntilPlaceholder file (Num n) prefix
            = Some (slice_to_neg (prefix @ toString_ascii (take (Suc k) (drop n file))) 4,
                    slice_from_neg (prefix @ toString_ascii (take (Suc k) (drop n file))) 4,
                    Num (n + Suc k)))"
proof (intro conjI; rule impI)
  assume "\<forall>k\<le>length file - n.
        \<not> list_ex (endsWith (prefix @ toString_ascii (take (Suc k) (drop n file)))) placeholders"
  then show "extractUntilPlaceholder file (Num n) prefix = None"
    by (rule scan_exhausts)
next
  assume "\<not> list_ex (endsWith prefix) placeholders"
  then show "extractUntilPlaceholder file NaN prefix = None"
    by (intro scan_never_returns) simp_all
next
  assume "list_ex (endsWith (prefix @ toString_ascii (take (Suc k) (drop n file)))) placeholders
        \<and> (\<forall>j<k. \<not> list_ex (endsWith (prefix @ toString_ascii (take (Suc j) (drop n file))))
                      placeholders)"
  then show "extractUntilPlaceholder file (Num n) prefix
            = Some (slice_to_neg (prefix @ toString_ascii (take (Suc k) (drop n file))) 4,
                    slice_from_neg (prefix @ toString_ascii (take (Suc k) (drop n file))) 4,
                    Num (n + Suc k))"
    by (intro scan_first_match) simp_all
qed

theorem scan_unbounded_witness:
  "extractUntilPlaceholder (Buffer_from_ascii ''xyz'') (Num 1) ''Size'' = None
   \<and> extractUntilPlaceholder (Buffer_from_ascii ''xlong'') (Num 0) ''ab'' = Some (''abx'', ''long'', Num 5)"
proof -
  have a: "\<forall>k\<le>length (Buffer_from_ascii ''xyz'') - 1.
        \<not> list_ex (endsWith (''Size'' @ toString_ascii (take (Suc k) (drop 1 (Buffer_from_ascii ''xyz'')))))
            placeholders"
  proof (intro allI impI)
    fix k assume "k \<le> length (Buffer_from_ascii ''xyz'') - 1"
    then have "k = 0 \<or> k = 1 \<or> k = 2" by (auto simp: length_Buffer_from_ascii)
    then show "\<not> list_ex (endsWith (''Size'' @ toString_ascii (take (Suc k) (drop 1 (Buffer_from_ascii ''xyz'')))))
            placeholders"
      by (elim disjE) (simp_all add: text_eval)
  qed
  have b: "list_ex (endsWith (''ab'' @ toString_ascii (take (Suc 4) (drop 0 (Buffer_from_ascii ''xlong'')))))
            placeholders"
    by (simp add: text_eval)
  have c: "\<forall>j<4. \<not> list_ex (endsWith (''ab'' @ toString_ascii (take (Suc j) (drop 0 (Buffer_from_ascii ''xlong'')))))
            placeholders"
  proof (intro allI impI)
    fix j :: nat assume "j < 4"
    then have "j = 0 \<or> j = 1 \<or> j = 2 \<or> j = 3" by auto
    then show "\<not> list_ex (endsWith (''ab'' @ toString_ascii (take (Suc j) (drop 0 (Buffer_from_ascii ''xlong'')))))
            placeholders"
      by (elim disjE) (simp_all add: text_eval)
  qed
  have d: "slice_to_neg (''ab'' @ toString_ascii (take (Suc 4) (drop 0 (Buffer_from_ascii ''xlong'')))) 4 = ''abx''"
    "slice_from_neg (''ab'' @ toString_ascii (take (Suc 4) (drop 0 (Buffer_from_ascii ''xlong'')))) 4 = ''long''"
    by (simp_all add: text_eval slice_to_neg_def slice_from_neg_def)
  show ?thesis
    using a b c d scan_unbounded [of "Buffer_from_ascii ''xyz''" 1 "''Size''"]
      scan_unbounded [of "Buffer_from_ascii ''xlong''" 0 "''ab''" 4]
    by simp
qed

text \<open>
  C3 as it is written asks for a scan that stops at the end of the buffer with an error.
  The scan started at offset 0 of the buffer \<^verbatim>\<open>abc\<close> with the empty prefix reads the three
  bytes, matches no placeholder, runs past the end and does not return.
\<close>

theorem scan_unbounded_counterexample:
  "extractUntilPlaceholder (Buffer_from_ascii ''abc'') (Num 0) [] = None"
proof (rule scan_exhausts, intro allI impI)
  fix k assume "k \<le> length (Buffer_from_ascii ''abc'') - 0"
  then have "k = 0 \<or> k = 1 \<or> k = 2 \<or> k = 3" by (auto simp: length_Buffer_from_ascii)
  then show "\<not> list_ex (endsWith ([] @ toString_ascii (take (Suc k) (drop 0 (Buffer_from_ascii ''abc'')))))
            placeholders"
    by (elim disjE) (simp_all add: text_eval)
qed

lemmas scan_eval = Let_def subarray_Num Buffer_from_ascii_def toString_ascii_Cons char_of_def
  bit_Suc_0_iff placeholders_def endsWith_def slice_to_neg_def slice_from_neg_def

text \<open>
  C2 at the literal \<^verbatim>\<open>dou\<close>. The accumulated text \<^verbatim>\<open>Nmabcddou\<close> ends in the placeholder
  \<^verbatim>\<open>dou\<close>; the scan cuts the last 4 characters, the length of the first placeholder, and
  returns the name \<^verbatim>\<open>Nmabc\<close> and the tag \<^verbatim>\<open>ddou\<close>, not the text before the literal and the
  literal.
\<close>

theorem placeholder_split_dou:
  "''dou'' \<in> set placeholders \<and> endsWith ''Nmabcddou'' ''dou''
   \<and> extractUntilPlaceholder (Buffer_from_ascii ''doub'') (Num 0) ''Nmabcd''
       = Some (''Nmabc'', ''ddou'', Num 3)"
proof -
  have "extractUntilPlaceholder (Buffer_from_ascii ''doub'') (Num 0) ''Nmabcd''
          = Some (''Nmabc'', ''ddou'', Num 3)"
    apply (subst extractUntilPlaceholder.simps)
    apply (simp add: scan_eval)
    apply (subst extractUntilPlaceholder.simps)
    apply (simp add: scan_eval)
    apply (subst extractUntilPlaceholder.simps)
    apply (simp add: scan_eval)
    done
  then show ?thesis
    by (simp add: placeholders_def endsWith_def)
qed

section \<open>Header validation\<close>

lemma of_char_decoded: "(of_char (String.ascii_of (char_of (unat (b::byte)))) :: nat) = unat (b AND 0x7F)"
proof -
  have "(of_char (String.ascii_of (char_of (unat b))) :: nat) = take_bit 7 (unat b mod 256)"
    by simp
  also have "unat b mod 256 = unat b"
    using unsigned_less [of b, where ?'a = nat] by simp
  also have "take_bit 7 (unat b) = unat (take_bit 7 b)"
    by (simp add: unsigned_take_bit_eq)
  also have "take_bit 7 b = b AND 0x7F"
    by (simp add: take_bit_eq_mask mask_eq_exp_minus_1)
  finally show ?thesis .
qed

lemma unat_and_7F_less: "unat ((b::byte) AND 0x7F) < 128"
proof -
  have "b AND 0x7F = take_bit 7 b"
    by (simp add: take_bit_eq_mask mask_eq_exp_minus_1)
  then have "unat (b AND 0x7F) = take_bit 7 (unat b)"
    by (simp add: unsigned_take_bit_eq)
  also have "\<dots> < 2 ^ 7" by (rule take_bit_nat_less_exp)
  finally show ?thesis by simp
qed

lemma lower_char_iff:
  assumes n: "(of_char ch :: nat) = n" and lt: "n < 128"
    and "\<not> (65 \<le> (of_char c :: nat) \<and> (of_char c :: nat) \<le> 90)"
  shows "(let m = (of_char ch :: nat) in if 65 \<le> m \<and> m \<le> 90 then char_of (m + 32) else ch) = c
         \<longleftrightarrow> lower_code n = lower_code (of_char c)"
proof -
  have c: "lower_code (of_char c) = of_char c" using assms(3) by (simp add: lower_code_def)
  show ?thesis
  proof (cases "65 \<le> n \<and> n \<le> 90")
    case True
    then have "(char_of (n + 32) = c) \<longleftrightarrow> (n + 32 = of_char c)"
      by (auto simp: char_of_eq_iff take_bit_eq_mod)
    with True assms(3) show ?thesis by (auto simp: n Let_def lower_code_def)
  next
    case False
    have "(ch = c) \<longleftrightarrow> ((of_char ch :: nat) = of_char c)" by simp
    with False assms(3) show ?thesis by (auto simp: n Let_def lower_code_def)
  qed
qed

lemma toLowerCase_char:
  assumes "\<not> (65 \<le> (of_char c :: nat) \<and> (of_char c :: nat) \<le> 90)"
  shows "(let n = (of_char (String.ascii_of (char_of (unat (b::byte)))) :: nat)
          in if 65 \<le> n \<and> n \<le> 90 then char_of (n + 32)
             else String.ascii_of (char_of (unat b))) = c
         \<longleftrightarrow> lower_code (unat (b AND 0x7F)) = lower_code (of_char c)"
  by (rule lower_char_iff [OF of_char_decoded unat_and_7F_less assms])

lemma toLowerCase_toString_ascii:
  assumes "\<forall>c\<in>set s. \<not> (65 \<le> (of_char c :: nat) \<and> (of_char c :: nat) \<le> 90)"
  shows "toLowerCase (toString_ascii bs) = s \<longleftrightarrow> equals_ascii_ci (clear_high_bits bs) s"
  using assms
proof (induction bs arbitrary: s)
  case Nil
  then show ?case
    by (auto simp: toLowerCase_def toString_ascii_def equals_ascii_ci_def clear_high_bits_def)
next
  case (Cons b bs)
  show ?case
  proof (cases s)
    case Nil
    then show ?thesis
      by (simp add: toLowerCase_def toString_ascii_def equals_ascii_ci_def clear_high_bits_def)
  next
    case (Cons c cs)
    with Cons.prems have c: "\<not> (65 \<le> (of_char c :: nat) \<and> (of_char c :: nat) \<le> 90)"
      and cs: "\<forall>c\<in>set cs. \<not> (65 \<le> (of_char c :: nat) \<and> (of_char c :: nat) \<le> 90)"
      by simp_all
    have tl: "toLowerCase (toString_ascii bs) = cs \<longleftrightarrow> equals_ascii_ci (clear_high_bits bs) cs"
      by (rule Cons.IH [OF cs])
    have "toLowerCase (toString_ascii (b # bs)) = c # cs \<longleftrightarrow>
            (let n = (of_char (String.ascii_of (char_of (unat b))) :: nat)
             in if 65 \<le> n \<and> n \<le> 90 then char_of (n + 32)
                else String.ascii_of (char_of (unat b))) = c
            \<and> toLowerCase (toString_ascii bs) = cs"
      by (simp add: toLowerCase_def toString_ascii_def)
    also have "\<dots> \<longleftrightarrow> lower_code (unat (b AND 0x7F)) = lower_code (of_char c)
                  \<and> equals_ascii_ci (clear_high_bits bs) cs"
      by (simp only: toLowerCase_char [OF c] tl)
    also have "\<dots> \<longleftrightarrow> equals_ascii_ci (clear_high_bits (b # bs)) (c # cs)"
      by (simp add: equals_ascii_ci_def clear_high_bits_def)
    finally show ?thesis using Cons by simp
  qed
qed

lemma clear_high_bits_take: "take n (clear_high_bits bs) = clear_high_bits (take n bs)"
  by (simp add: clear_high_bits_def take_map)

lemma clear_high_bits_drop: "drop n (clear_high_bits bs) = clear_high_bits (drop n bs)"
  by (simp add: clear_high_bits_def drop_map)

lemma header_literals_lower:
  "\<forall>c\<in>set ''8btp''. \<not> (65 \<le> (of_char c :: nat) \<and> (of_char c :: nat) \<le> 90)"
  "\<forall>c\<in>set ''8bim''. \<not> (65 \<le> (of_char c :: nat) \<and> (of_char c :: nat) \<le> 90)"
  by simp_all

lemma validateTplHeader_iff:
  "validateTplHeader file (Num 0) =
     (if header_as_specified (clear_high_bits file) then (True, Num 16)
      else if equals_ascii_ci (clear_high_bits (take 4 file)) ''8btp'' then (False, Num 16)
      else (False, Num 4))"
  by (simp add: validateTplHeader_def Let_def subarray_Num header_as_specified_def
      toLowerCase_toString_ascii [OF header_literals_lower(1)]
      toLowerCase_toString_ascii [OF header_literals_lower(2)]
      clear_high_bits_take clear_high_bits_drop)

text \<open>
  C6, as far as it holds. \<^verbatim>\<open>validateTplHeader\<close> accepts exactly the buffers whose bytes
  0 to 3 and 12 to 15, with the highest bit of each byte cleared, equal \<^verbatim>\<open>8btp\<close> and
  \<^verbatim>\<open>8bim\<close> case-insensitively; it then returns the offset 16. For every other buffer
  \<^verbatim>\<open>readTpl\<close> returns the empty document, whatever its budget.
\<close>

theorem header_validation:
  "(fst (validateTplHeader file (Num 0)) \<longleftrightarrow> header_as_specified (clear_high_bits file))
   \<and> (fst (validateTplHeader file (Num 0)) \<longrightarrow> snd (validateTplHeader file (Num 0)) = Num 16)
   \<and> (\<not> fst (validateTplHeader file (Num 0)) \<longrightarrow> readTpl fuel file = Some (Inr []))"
  by (simp add: validateTplHeader_iff readTpl_def)


lemmas header_eval = header_as_specified_def equals_ascii_ci_def clear_high_bits_def lower_code_def
  Buffer_from_ascii_def

theorem header_validation_witness:
  "fst (validateTplHeader (Buffer_from_ascii ''8BTP'' @ replicate 8 0 @ Buffer_from_ascii ''8bim'') (Num 0))
   \<and> snd (validateTplHeader (Buffer_from_ascii ''8BTP'' @ replicate 8 0 @ Buffer_from_ascii ''8bim'') (Num 0))
       = Num 16
   \<and> \<not> fst (validateTplHeader (Buffer_from_ascii ''8BPS'') (Num 0))
   \<and> readTpl 0 (Buffer_from_ascii ''8BPS'') = Some (Inr [])"
proof -
  have a: "header_as_specified (clear_high_bits
             (Buffer_from_ascii ''8BTP'' @ replicate 8 0 @ Buffer_from_ascii ''8bim''))"
    by (simp add: header_eval)
  have b: "\<not> header_as_specified (clear_high_bits (Buffer_from_ascii ''8BPS''))"
    by (simp add: header_eval)
  show ?thesis
    using a b
      header_validation [of "Buffer_from_ascii ''8BTP'' @ replicate 8 0 @ Buffer_from_ascii ''8bim''" 0]
      header_validation [of "Buffer_from_ascii ''8BPS''" 0]
    by simp
qed

text \<open>
  C6 as it is written fails on a header whose first byte is \<open>0xB8\<close>: it is not the ASCII
  character \<^verbatim>\<open>8\<close> in any case, and \<^verbatim>\<open>toString("ascii")\<close> decodes it to \<^verbatim>\<open>8\<close>.
\<close>

theorem header_validation_counterexample:
  "fst (validateTplHeader ([0xB8, 0x42, 0x54, 0x50] @ replicate 8 0 @ [0x38, 0x42, 0x49, 0x4D]) (Num 0))
   \<and> \<not> header_as_specified ([0xB8, 0x42, 0x54, 0x50] @ replicate 8 0 @ [0x38, 0x42, 0x49, 0x4D])"
  by (simp add: validateTplHeader_iff header_eval)

section \<open>The end-to-end scenario\<close>

lemma example_buffer_bytes:
  "example_buffer =
     [56, 66, 84, 80, 0, 0, 0, 0, 0, 0, 0, 0, 56, 66, 73, 77,
      56, 66, 73, 77, 116, 112, 116, 112, 0, 0, 0, 0, 0, 0, 0, 0,
      0, 0, 0, 15,
      0, 68, 0, 101, 0, 102, 0, 97, 0, 117, 0, 108, 0, 116, 0, 61,
      0, 77, 0, 121, 0, 66, 0, 114, 0, 117, 0, 115, 0, 104,
      0, 0, 0, 0, 0, 0, 0, 0, 0, 0,
      0, 0, 0, 4, 66, 114, 115, 104,
      0, 0, 0, 1,
      0, 0, 0, 4, 83, 105, 122, 101, 108, 111, 110, 103, 0, 0, 0, 42]"
  by (simp add: example_buffer_def Buffer_from_ascii_def eval_nat_numeral)

lemma example_length: "length example_buffer = 104"
  by (simp add: example_buffer_bytes)


lemma example_header: "validateTplHeader example_buffer (Num 0) = (True, Num 16)"
  by (simp add: validateTplHeader_def example_buffer_bytes toLowerCase_def byte_eval)

lemma lastIndexOf_from_pos:
  "0 < k \<Longrightarrow> lastIndexOf_from file val k =
     (if take (length val) (drop k file) = val then int k else lastIndexOf_from file val (k - 1))"
  by (cases k) simp_all

lemma example_section: "moveToToolDataSection example_buffer = (True, Num 32)"
  by (simp add: moveToToolDataSection_def lastIndexOf_def example_buffer_bytes
      Buffer_from_ascii_def lastIndexOf_from_pos Let_def)

lemma example_text:
  "extractText (Suc (Suc fuel)) example_buffer (Num 32) = Some (''Default=MyBrush'', Num 66)"
  by (simp add: extractText.simps extractText_loop.simps example_buffer_bytes byte_eval)

lemma example_label: "extractLabel example_buffer (Num 76) = ([66, 114, 115, 104], Num 84)"
  by (simp add: extractLabel_def example_buffer_bytes byte_eval)

lemma example_property:
  "extractProperty (Suc (Suc (Suc fuel))) example_buffer (Num 88)
     = Some (Object [(''Size'', Object [(''type'', String ''long''), (''value'', Number (Num 42))])],
             Num 104)"
  by (simp add: extractProperty.simps extractPropertyValue.simps extractOsTypeValue.simps
      extractLabel_def extractInteger_def handled_def trim_def is_space_def
      example_buffer_bytes byte_eval)


lemma example_properties:
  "readTool_properties_loop (Suc (Suc (Suc (Suc fuel)))) example_buffer (Num 88) 0 (Num (Suc 0)) []
     = Some ([Object [(''Size'', Object [(''type'', String ''long''), (''value'', Number (Num 42))])]],
             Num 104)"
  by (simp add: readTool_properties_loop.simps example_property)

lemma example_tool:
  "readTool (Suc (Suc (Suc (Suc (Suc fuel))))) example_buffer (Num 32)
     = Some (Inr ([(''Brsh'',
                    [Object [(''name'', String ''MyBrush''),
                             (''properties'',
                              Array [Object [(''Size'', Object [(''type'', String ''long''),
                                                               (''value'', Number (Num 42))])]])]])],
                  Num 104))"
proof -
  have count: "parseInt_hex (subarray example_buffer (Num 84) (Num 88)) = Num (Suc 0)"
    by (simp add: example_buffer_bytes byte_eval)
  have type: "trim (toString_ascii [66, 114, 115, 104]) = ''Brsh''"
    by (simp add: trim_def is_space_def byte_eval)
  have name: "split_eq_pop ''Default=MyBrush'' = ''MyBrush''"
    by (simp add: split_eq_pop_def)
  have rest: "subarray example_buffer (Num 104) (Num 108) = []"
    by (simp add: subarray_past_end example_length)
  show ?thesis
    unfolding readTool_def
    apply (subst readTool_loop.simps)
    apply (simp only: example_text option.case prod.case Let_def)
    apply (simp add: example_label type count example_properties name rest tpl_truthy_def
        Object_prototype_keys_def)
    done
qed

text \<open>
  C1. With a budget of at least 5, \<^verbatim>\<open>readTpl\<close> on the example buffer returns the document
  with the one tool type \<^verbatim>\<open>Brsh\<close>, its one tool \<^verbatim>\<open>MyBrush\<close> and the one property \<^verbatim>\<open>Size\<close>
  of type \<^verbatim>\<open>long\<close> and value 42.
\<close>

theorem decode_example:
  assumes "5 \<le> fuel"
  shows "readTpl fuel example_buffer
     = Some (Inr [(''Brsh'',
                   [Object [(''name'', String ''MyBrush''),
                            (''properties'',
                             Array [Object [(''Size'', Object [(''type'', String ''long''),
                                                              (''value'', Number (Num 42))])]])]])])"
proof -
  from assms have "fuel = Suc (Suc (Suc (Suc (Suc (fuel - 5)))))"
    by simp
  then obtain k where "fuel = Suc (Suc (Suc (Suc (Suc k))))" ..
  then show ?thesis
    by (simp add: readTpl_def example_header example_section example_tool)
qed

theorem decode_example_witness:
  "readTpl 5 example_buffer
     = Some (Inr [(''Brsh'',
                   [Object [(''name'', String ''MyBrush''),
                            (''properties'',
                             Array [Object [(''Size'', Object [(''type'', String ''long''),
                                                              (''value'', Number (Num 42))])]])]])])"
  using decode_example [of 5] by simp

section \<open>Every decode step advances the offset\<close>

lemma advanced_NaN [simp]: "advanced offset NaN"
  by (simp add: advanced_def)

lemma advanced_Num [simp]: "advanced (Num a) (Num b) \<longleftrightarrow> a < b"
  by (simp add: advanced_def)

lemma advanced_from_NaN [simp]: "advanced NaN b \<longleftrightarrow> b = NaN"
  by (cases b) (simp_all add: advanced_def)

lemma advanced_trans: "advanced a b \<Longrightarrow> advanced b c \<Longrightarrow> advanced a c"
  by (cases a; cases b; cases c) simp_all

lemma advanced_plus: "0 < k \<Longrightarrow> advanced offset (offset + Num k)"
  by (cases offset) simp_all

lemma advanced_plus_more: "advanced offset b \<Longrightarrow> advanced offset (b + x)"
  by (cases offset; cases b; cases x) simp_all

lemma advanced_minus_plus: "advanced (offset - Num 4) b \<Longrightarrow> advanced offset (b + Num 4)"
  by (cases offset; cases b) auto

lemma extractLabel_advanced: "advanced offset (snd (extractLabel file offset))"
  by (simp add: extractLabel_def Let_def advanced_plus advanced_plus_more)

lemma extractInteger_advanced: "advanced offset (snd (extractInteger file offset))"
  by (simp add: extractInteger_def Let_def advanced_plus)

lemma extractLargeInteger_advanced: "advanced offset (snd (extractLargeInteger file offset))"
  by (simp add: extractLargeInteger_def Let_def advanced_plus)

lemma extractDouble_advanced: "advanced offset (snd (extractDouble file offset))"
  by (simp add: extractDouble_def Let_def advanced_plus)

lemma extractUnitFloat_advanced: "advanced offset (snd (extractUnitFloat file offset))"
  by (simp add: extractUnitFloat_def Let_def advanced_plus advanced_plus_more)

lemma extractBoolean_advanced: "advanced offset (snd (extractBoolean file offset))"
  by (simp add: extractBoolean_def Let_def advanced_plus)

lemma extractEnum_advanced: "advanced offset (snd (extractEnum file offset))"
  by (simp add: extractEnum_def Let_def advanced_plus advanced_plus_more)

lemma scan_advanced:
  assumes "extractUntilPlaceholder file offset prefix = Some (nameFound, tag, newOffset)"
  shows "advanced offset newOffset"
proof -
  have "advanced offset (snd (snd (nameFound, tag, newOffset)))"
  proof (rule extractUntilPlaceholder.raw_induct
      [where P = "\<lambda>f off acc res. advanced off (snd (snd res))", OF _ assms])
    fix scan f off acc res
    assume IH: "\<And>f off acc res. scan f off acc = Some res \<Longrightarrow> advanced off (snd (snd res))"
      and body: "(let extractedText = acc @ toString_ascii (subarray f off (off + Num 1));
                      offset = off + Num 1
                  in if list_ex (endsWith extractedText) placeholders
                     then let placeholderLength = length (placeholders ! 0)
                          in Some (slice_to_neg extractedText placeholderLength,
                                   slice_from_neg extractedText placeholderLength, offset)
                     else scan f offset extractedText) = Some res"
    show "advanced off (snd (snd res))"
    proof (cases "list_ex (endsWith (acc @ toString_ascii (subarray f off (off + Num 1)))) placeholders")
      case True
      with body have "snd (snd res) = off + Num 1" by (auto simp: Let_def)
      then show ?thesis by (simp add: advanced_plus)
    next
      case False
      with body have "scan f (off + Num 1) (acc @ toString_ascii (subarray f off (off + Num 1))) = Some res"
        by (simp add: Let_def)
      then have "advanced (off + Num 1) (snd (snd res))" by (rule IH)
      moreover have "advanced off (off + Num 1)" by (simp add: advanced_plus)
      ultimately show ?thesis by (blast intro: advanced_trans)
    qed
  qed
  then show ?thesis by simp
qed


lemma advanced_then: "advanced a b \<Longrightarrow> advanced b c \<or> c = b \<Longrightarrow> advanced a c"
  by (auto intro: advanced_trans)

lemma advanced_4: "advanced offset (offset + Num 4)"
  by (simp add: advanced_plus)

lemma advanced_6: "advanced offset (offset + Num 6)"
  by (simp add: advanced_plus)

lemma handler_advanced:
  "extractDouble file offset = (v, newOffset) \<Longrightarrow> advanced offset newOffset"
  "extractUnitFloat file offset = (v, newOffset) \<Longrightarrow> advanced offset newOffset"
  "extractEnum file offset = (v, newOffset) \<Longrightarrow> advanced offset newOffset"
  "extractInteger file offset = (v, newOffset) \<Longrightarrow> advanced offset newOffset"
  "extractLargeInteger file offset = (v, newOffset) \<Longrightarrow> advanced offset newOffset"
  "extractBoolean file offset = (v, newOffset) \<Longrightarrow> advanced offset newOffset"
  using extractDouble_advanced [of offset "file"] extractUnitFloat_advanced [of offset "file"]
    extractEnum_advanced [of offset "file"] extractInteger_advanced [of offset "file"]
    extractLargeInteger_advanced [of offset "file"] extractBoolean_advanced [of offset "file"]
  by simp_all

lemma decoders_advance:
  "(\<forall>file offset r newOffset.
      extractProperty fuel file offset = Some (r, newOffset) \<longrightarrow> advanced offset newOffset)
   \<and> (\<forall>file offset nm r newOffset.
      extractPropertyValue fuel file offset nm = Some (r, newOffset) \<longrightarrow> advanced offset newOffset)
   \<and> (\<forall>file offset nm ty r newOffset.
      extractOsTypeValue fuel file offset nm ty = Some (r, newOffset)
        \<longrightarrow> advanced offset newOffset \<or> newOffset = offset)
   \<and> (\<forall>file offset nm r newOffset.
      extractObjectClass fuel file offset nm = Some (r, newOffset) \<longrightarrow> advanced offset newOffset)
   \<and> (\<forall>file offset i n ps r newOffset.
      extractObjectClass_loop fuel file offset i n ps = Some (r, newOffset)
        \<longrightarrow> advanced offset newOffset \<or> newOffset = offset)
   \<and> (\<forall>file offset r newOffset.
      extractText fuel file offset = Some (r, newOffset) \<longrightarrow> advanced offset newOffset)
   \<and> (\<forall>file offset len newOffset len'.
      extractText_loop fuel file offset len = Some (newOffset, len')
        \<longrightarrow> advanced offset newOffset \<or> newOffset = offset)
   \<and> (\<forall>file offset r newOffset.
      extractList fuel file offset = Some (r, newOffset) \<longrightarrow> advanced offset newOffset)
   \<and> (\<forall>file offset i n ps r newOffset.
      extractList_loop fuel file offset i n ps = Some (r, newOffset)
        \<longrightarrow> advanced offset newOffset \<or> newOffset = offset)"
proof (induction fuel)
  case 0
  show ?case
    by (simp add: extractProperty.simps extractPropertyValue.simps extractOsTypeValue.simps
        extractObjectClass.simps extractObjectClass_loop.simps extractText.simps
        extractText_loop.simps extractList.simps extractList_loop.simps)
next
  case (Suc fuel)
  note IH1 = Suc.IH [THEN conjunct1, rule_format]
  note IH2 = Suc.IH [THEN conjunct2, THEN conjunct1, rule_format]
  note IH3 = Suc.IH [THEN conjunct2, THEN conjunct2, THEN conjunct1, rule_format]
  note IH4 = Suc.IH [THEN conjunct2, THEN conjunct2, THEN conjunct2, THEN conjunct1, rule_format]
  note IH5 = Suc.IH [THEN conjunct2, THEN conjunct2, THEN conjunct2, THEN conjunct2, THEN conjunct1, rule_format]
  note IH6 = Suc.IH [THEN conjunct2, THEN conjunct2, THEN conjunct2, THEN conjunct2, THEN conjunct2, THEN conjunct1, rule_format]
  note IH7 = Suc.IH [THEN conjunct2, THEN conjunct2, THEN conjunct2, THEN conjunct2, THEN conjunct2, THEN conjunct2, THEN conjunct1, rule_format]
  note IH8 = Suc.IH [THEN conjunct2, THEN conjunct2, THEN conjunct2, THEN conjunct2, THEN conjunct2, THEN conjunct2, THEN conjunct2, THEN conjunct1, rule_format]
  note IH9 = Suc.IH [THEN conjunct2, THEN conjunct2, THEN conjunct2, THEN conjunct2, THEN conjunct2, THEN conjunct2, THEN conjunct2, THEN conjunct2, rule_format]
  have P1: "advanced offset newOffset"
    if a: "extractProperty (Suc fuel) f offset = Some (r, newOffset)" for f offset r newOffset
  proof -
    obtain nm off1 where l: "extractLabel f offset = (nm, off1)"
      by (cases "extractLabel f offset")
    have adv1: "advanced offset off1"
      using extractLabel_advanced [of offset f] l by simp
    show ?thesis
    proof (cases "toString_ascii nm \<noteq> ''null''")
      case True
      with a l have "extractPropertyValue fuel f off1 nm = Some (r, newOffset)"
        by (simp add: extractProperty.simps)
      from adv1 IH2 [OF this] show ?thesis by (rule advanced_trans)
    next
      case False
      with a l have "newOffset = off1" by (simp add: extractProperty.simps)
      with adv1 show ?thesis by simp
    qed
  qed
  have P2: "advanced offset newOffset"
    if a: "extractPropertyValue (Suc fuel) f offset nm = Some (r, newOffset)"
    for f offset nm r newOffset
  proof -
    from a obtain x where "extractOsTypeValue fuel f (offset + Num 4) (trim (toString_ascii nm))
        (toString_ascii (subarray f offset (offset + Num 4))) = Some (x, newOffset)"
      by (auto simp: extractPropertyValue.simps Let_def split: option.splits prod.splits)
    from advanced_4 IH3 [OF this] show ?thesis by (rule advanced_then)
  qed
  have P3: "advanced offset newOffset \<or> newOffset = offset"
    if a: "extractOsTypeValue (Suc fuel) f offset nm ty = Some (r, newOffset)"
    for f offset nm ty r newOffset
  proof -
    consider (c_objc) "ty = ''Objc''" | (c_vlls) "ty = ''VlLs''" | (c_doub) "ty = ''doub''"
      | (c_untf) "ty = ''UntF''" | (c_text) "ty = ''TEXT''" | (c_enum) "ty = ''enum''"
      | (c_long) "ty = ''long''" | (c_comp) "ty = ''comp''" | (c_bool) "ty = ''bool''"
      | (c_other) "ty \<noteq> ''Objc''" "ty \<noteq> ''VlLs''" "ty \<noteq> ''doub''" "ty \<noteq> ''UntF''"
          "ty \<noteq> ''TEXT''" "ty \<noteq> ''enum''" "ty \<noteq> ''long''" "ty \<noteq> ''comp''" "ty \<noteq> ''bool''"
      by argo
    then show ?thesis
    proof cases
      case c_objc
      with a obtain vs where "extractObjectClass fuel f offset nm = Some (vs, newOffset)"
        by (auto simp: extractOsTypeValue.simps handled_def as_array_def
            split: option.splits prod.splits)
      from IH4 [OF this] show ?thesis ..
    next
      case c_vlls
      with a obtain vs where "extractList fuel f offset = Some (vs, newOffset)"
        by (auto simp: extractOsTypeValue.simps handled_def as_array_def
            split: option.splits prod.splits)
      from IH8 [OF this] show ?thesis ..
    next
      case c_doub
      with a obtain v where "extractDouble f offset = (v, newOffset)"
        by (auto simp: extractOsTypeValue.simps handled_def split: prod.splits)
      then show ?thesis by (auto dest: handler_advanced)
    next
      case c_untf
      with a obtain v where "extractUnitFloat f offset = (v, newOffset)"
        by (auto simp: extractOsTypeValue.simps handled_def split: prod.splits)
      then show ?thesis by (auto dest: handler_advanced)
    next
      case c_text
      with a obtain t where "extractText fuel f offset = Some (t, newOffset)"
        by (auto simp: extractOsTypeValue.simps handled_def as_string_def
            split: option.splits prod.splits)
      from IH6 [OF this] show ?thesis ..
    next
      case c_enum
      with a obtain v where "extractEnum f offset = (v, newOffset)"
        by (auto simp: extractOsTypeValue.simps handled_def split: prod.splits)
      then show ?thesis by (auto dest: handler_advanced)
    next
      case c_long
      with a obtain v where "extractInteger f offset = (v, newOffset)"
        by (auto simp: extractOsTypeValue.simps handled_def split: prod.splits)
      then show ?thesis by (auto dest: handler_advanced)
    next
      case c_comp
      with a obtain v where "extractLargeInteger f offset = (v, newOffset)"
        by (auto simp: extractOsTypeValue.simps handled_def split: prod.splits)
      then show ?thesis by (auto dest: handler_advanced)
    next
      case c_bool
      with a obtain v where "extractBoolean f offset = (v, newOffset)"
        by (auto simp: extractOsTypeValue.simps handled_def split: prod.splits)
      then show ?thesis by (auto dest: handler_advanced)
    next
      case c_other
      show ?thesis
      proof (cases "ty \<in> set unsupported")
        case True
        with a c_other show ?thesis by (simp add: extractOsTypeValue.simps)
      next
        case False
        with a c_other obtain nameFound tag off1
          where scan: "extractUntilPlaceholder f offset (nm @ ty) = Some (nameFound, tag, off1)"
            and rec: "extractOsTypeValue fuel f off1 nameFound tag = Some (r, newOffset)"
          by (auto simp: extractOsTypeValue.simps split: option.splits prod.splits)
        from scan_advanced [OF scan] IH3 [OF rec] have "advanced offset newOffset"
          by (rule advanced_then)
        then show ?thesis ..
      qed
    qed
  qed
  have P4: "advanced offset newOffset"
    if a: "extractObjectClass (Suc fuel) f offset nm = Some (r, newOffset)"
    for f offset nm r newOffset
  proof (cases "nm = ''Grad''")
    case True
    with a obtain t off1 where t: "extractText fuel f offset = Some (t, off1)"
      and l: "extractObjectClass_loop fuel f off1 0 (Num 4) [] = Some (r, newOffset)"
      by (auto simp: extractObjectClass.simps split: option.splits prod.splits)
    from IH6 [OF t] IH5 [OF l] show ?thesis by (rule advanced_then)
  next
    case False
    let ?o1 = "snd (extractLabel f (offset + Num 6))"
    from a False have l: "extractObjectClass_loop fuel f (?o1 + Num 4) 0
        (parseInt_hex (subarray f ?o1 (?o1 + Num 4))) [] = Some (r, newOffset)"
      by (simp add: extractObjectClass.simps Let_def)
    have "advanced offset ?o1"
      using advanced_6 extractLabel_advanced by (rule advanced_trans)
    then have "advanced offset (?o1 + Num 4)"
      using advanced_4 by (rule advanced_trans)
    from this IH5 [OF l] show ?thesis by (rule advanced_then)
  qed
  have P5: "advanced offset newOffset \<or> newOffset = offset"
    if a: "extractObjectClass_loop (Suc fuel) f offset i n ps = Some (r, newOffset)"
    for f offset i n ps r newOffset
  proof (cases "Num i < n")
    case True
    with a obtain p off1 where p: "extractProperty fuel f offset = Some (p, off1)"
      and l: "extractObjectClass_loop fuel f off1 (Suc i) n (ps @ [p]) = Some (r, newOffset)"
      by (auto simp: extractObjectClass_loop.simps split: option.splits prod.splits)
    from IH1 [OF p] IH5 [OF l] have "advanced offset newOffset" by (rule advanced_then)
    then show ?thesis ..
  next
    case False
    with a show ?thesis by (simp add: extractObjectClass_loop.simps)
  qed
  have P6: "advanced offset newOffset"
    if a: "extractText (Suc fuel) f offset = Some (r, newOffset)" for f offset r newOffset
  proof -
    from a obtain off1 len1
      where l: "extractText_loop fuel f (offset + Num 4)
                  (parseInt_hex (subarray f offset (offset + Num 4))) = Some (off1, len1)"
        and n: "newOffset = off1 + len1 * Num 2"
      by (auto simp: extractText.simps Let_def split: option.splits prod.splits)
    from advanced_4 IH7 [OF l] have "advanced offset off1" by (rule advanced_then)
    then show ?thesis unfolding n by (rule advanced_plus_more)
  qed
  have P7: "advanced offset newOffset \<or> newOffset = offset"
    if a: "extractText_loop (Suc fuel) f offset len = Some (newOffset, len')"
    for f offset len newOffset len'
  proof (cases "len = Num 0")
    case False
    with a show ?thesis by (simp add: extractText_loop.simps)
  next
    case True
    with a obtain p off1 where p: "extractProperty fuel f (offset - Num 4) = Some (p, off1)"
      by (auto simp: extractText_loop.simps Let_def split: option.splits prod.splits)
    let ?len = "parseInt_hex (subarray f off1 (off1 + Num 4))"
    let ?o2 = "off1 + Num 4"
    from IH1 [OF p] have adv: "advanced offset ?o2" by (rule advanced_minus_plus)
    from a True p have "(newOffset = ?o2 \<and> len' = ?len)
        \<or> extractText_loop fuel f ?o2 (Num 0) = Some (newOffset, len')
        \<or> extractText_loop fuel f ?o2 ?len = Some (newOffset, len')"
      by (auto simp: extractText_loop.simps Let_def split: if_splits)
    then have "advanced offset newOffset"
    proof (elim disjE)
      assume "newOffset = ?o2 \<and> len' = ?len"
      with adv show ?thesis by simp
    next
      assume "extractText_loop fuel f ?o2 (Num 0) = Some (newOffset, len')"
      from adv IH7 [OF this] show ?thesis by (rule advanced_then)
    next
      assume "extractText_loop fuel f ?o2 ?len = Some (newOffset, len')"
      from adv IH7 [OF this] show ?thesis by (rule advanced_then)
    qed
    then show ?thesis ..
  qed
  have P8: "advanced offset newOffset"
    if a: "extractList (Suc fuel) f offset = Some (r, newOffset)" for f offset r newOffset
  proof -
    from a have l: "extractList_loop fuel f (offset + Num 4) 0
        (parseInt_hex (subarray f offset (offset + Num 4))) [] = Some (r, newOffset)"
      by (simp add: extractList.simps Let_def)
    from advanced_4 IH9 [OF l] show ?thesis by (rule advanced_then)
  qed
  have P9: "advanced offset newOffset \<or> newOffset = offset"
    if a: "extractList_loop (Suc fuel) f offset i n ps = Some (r, newOffset)"
    for f offset i n ps r newOffset
  proof (cases "Num i < n")
    case True
    with a obtain p off1
      where p: "extractPropertyValue fuel f offset (Buffer_from_ascii (number_toString i))
                  = Some (p, off1)"
        and l: "extractList_loop fuel f off1 (Suc i) n
                  (ps @ [get_property p (number_toString i)]) = Some (r, newOffset)"
      by (auto simp: extractList_loop.simps Let_def split: option.splits prod.splits)
    from IH2 [OF p] IH9 [OF l] have "advanced offset newOffset" by (rule advanced_then)
    then show ?thesis ..
  next
    case False
    with a show ?thesis by (simp add: extractList_loop.simps)
  qed
  show ?case
    by (intro conjI allI impI) (erule P1 P2 P3 P4 P5 P6 P7 P8 P9)+
qed

lemma parseInt_hex_inside:
  "n < length file \<Longrightarrow> \<exists>L. parseInt_hex (subarray file (Num n) (Num (n + 4))) = Num L"
  by (simp add: parseInt_hex_def subarray_Num)

lemma parseInt_hex_outside:
  "length file \<le> n \<Longrightarrow> parseInt_hex (subarray file (Num n) e) = NaN"
  by (simp add: subarray_past_end)

lemma extractLabel_outside:
  "length file \<le> n \<Longrightarrow> snd (extractLabel file (Num n)) = NaN"
  by (simp add: extractLabel_def Let_def parseInt_hex_outside)

lemma extractEnum_outside:
  assumes "length file \<le> n
    \<or> (parseInt_hex (subarray file (Num n) (Num (n + 4))) = Num L
        \<and> length file \<le> n + 4 + (if L = 0 then 4 else L))"
  shows "snd (extractEnum file (Num n)) = NaN"
  using assms
proof
  assume "length file \<le> n"
  then show ?thesis by (simp add: extractEnum_def Let_def parseInt_hex_outside)
next
  let ?c = "if L = 0 then 4 else L"
  assume a: "parseInt_hex (subarray file (Num n) (Num (n + 4))) = Num L
        \<and> length file \<le> n + 4 + (if L = 0 then 4 else L)"
  then have "parseInt_hex (subarray file (Num (n + 4 + ?c)) (Num (n + 4 + ?c + 4))) = NaN"
    by (intro parseInt_hex_outside) simp
  with a show ?thesis
    by (cases "L = 0") (simp_all add: extractEnum_def Let_def)
qed

lemma extractText_direct:
  assumes "parseInt_hex (subarray file (Num n) (Num (n + 4))) = Num L" and "L \<noteq> 0"
  shows "extractText (Suc (Suc fuel)) file (Num n)
           = Some (filter (\<lambda>c. c \<noteq> CHR 0x00) (toString_ascii (take (2 * L) (drop (n + 4) file))),
                   Num (n + 4 + 2 * L))"
  using assms
  by (simp add: extractText.simps extractText_loop.simps Let_def subarray_Num mult.commute)

lemma extractText_outside:
  assumes "length file \<le> n"
  shows "extractText (Suc (Suc fuel)) file (Num n) = Some ([], NaN)"
  using assms
  by (simp add: extractText.simps extractText_loop.simps Let_def parseInt_hex_outside)

lemma extractLabel_zero:
  assumes "parseInt_hex (subarray file (Num n) (Num (n + 4))) = Num 0"
  shows "extractLabel file (Num n) = (take 4 (drop (n + 4) file), Num (n + 8))"
  using assms by (simp add: extractLabel_def Let_def subarray_Num)

lemmas extractPropertyValue_advanced =
  decoders_advance [THEN conjunct2, THEN conjunct1, rule_format]

lemmas extractText_loop_advanced =
  decoders_advance [THEN conjunct2, THEN conjunct2, THEN conjunct2, THEN conjunct2,
    THEN conjunct2, THEN conjunct2, THEN conjunct1, rule_format]

lemma advanced_mono: "advanced (Num a) x \<Longrightarrow> b \<le> a \<Longrightarrow> advanced (Num b) x"
  by (cases x) simp_all


lemma subarray_NaN_start: "subarray file NaN NaN = []"
  by (simp add: subarray_def)

lemma extractText_from_NaN: "extractText (Suc (Suc fuel)) file NaN = Some ([], NaN)"
  by (simp add: extractText.simps extractText_loop.simps Let_def subarray_NaN_start)

lemma extractProperty_zero_advances:
  assumes zero: "parseInt_hex (subarray file (Num n) (Num (n + 4))) = Num 0"
    and p: "extractProperty fuel file (Num n) = Some (p, off1)"
  shows "advanced (Num (n + 7)) off1"
proof -
  from p obtain f3 where f3: "fuel = Suc f3"
    by (cases fuel) (simp_all add: extractProperty.simps)
  show ?thesis
  proof (cases "toString_ascii (take 4 (drop (n + 4) file)) \<noteq> ''null''")
    case True
    with p f3 zero have "extractPropertyValue f3 file (Num (n + 8)) (take 4 (drop (n + 4) file))
        = Some (p, off1)"
      by (simp add: extractProperty.simps extractLabel_zero)
    from extractPropertyValue_advanced [OF this] show ?thesis
      by (rule advanced_mono) simp
  next
    case False
    with p f3 zero have "off1 = Num (n + 8)"
      by (simp add: extractProperty.simps extractLabel_zero)
    then show ?thesis by simp
  qed
qed

lemma extractText_rewind_bound:
  assumes zero: "parseInt_hex (subarray file (Num n) (Num (n + 4))) = Num 0"
    and run: "extractText fuel file (Num n) = Some (t, newOffset)"
  shows "newOffset = NaN \<or> (\<exists>m. newOffset = Num m \<and> n + 12 \<le> m)"
proof -
  from run obtain f1 where f1: "fuel = Suc f1"
    by (cases fuel) (simp_all add: extractText.simps)
  with run zero obtain off' len'
    where loop: "extractText_loop f1 file (Num (n + 4)) (Num 0) = Some (off', len')"
      and new: "newOffset = off' + len' * Num 2"
    by (auto simp: extractText.simps Let_def split: option.splits prod.splits)
  from loop obtain f2 where f2: "f1 = Suc f2"
    by (cases f1) (simp_all add: extractText_loop.simps)
  with loop obtain p off1 where p: "extractProperty f2 file (Num n) = Some (p, off1)"
    by (auto simp: extractText_loop.simps Let_def split: option.splits prod.splits)
  from extractProperty_zero_advances [OF zero p] have o1: "advanced (Num (n + 7)) off1" .
  let ?len = "parseInt_hex (subarray file off1 (off1 + Num 4))"
  let ?o2 = "off1 + Num 4"
  from o1 have o2: "advanced (Num (n + 11)) ?o2"
    by (cases off1) simp_all
  from loop f2 p have "(off' = ?o2 \<and> len' = ?len)
      \<or> extractText_loop f2 file ?o2 (Num 0) = Some (off', len')
      \<or> extractText_loop f2 file ?o2 ?len = Some (off', len')"
    by (auto simp: extractText_loop.simps Let_def split: if_splits)
  then have "advanced (Num (n + 11)) off'"
  proof (elim disjE)
    assume "off' = ?o2 \<and> len' = ?len"
    with o2 show ?thesis by simp
  next
    assume "extractText_loop f2 file ?o2 (Num 0) = Some (off', len')"
    from o2 extractText_loop_advanced [OF this] show ?thesis by (rule advanced_then)
  next
    assume "extractText_loop f2 file ?o2 ?len = Some (off', len')"
    from o2 extractText_loop_advanced [OF this] show ?thesis by (rule advanced_then)
  qed
  then have "advanced (Num (n + 11)) newOffset"
    unfolding new by (rule advanced_plus_more)
  then show ?thesis
    by (cases newOffset) auto
qed

lemma extractText_rewind_round:
  assumes zero: "parseInt_hex (subarray file (Num n) (Num (n + 4))) = Num 0"
    and p: "extractProperty fuel file (Num n) = Some (p, Num m)"
    and len: "parseInt_hex (subarray file (Num m) (Num (m + 4))) = Num L" and "L \<noteq> 0"
    and zeros: "match_00 (toString_hex (take (2 * L) (drop (m + 4) file))) = L + 1"
  shows "n + 8 \<le> m \<and> extractText (Suc (Suc fuel)) file (Num n)
           = Some (filter (\<lambda>c. c \<noteq> CHR 0x00) (toString_ascii (take (2 * L) (drop (m + 4) file))),
                   Num (m + 4 + 2 * L))"
proof -
  from extractProperty_zero_advances [OF zero p] have m: "n + 8 \<le> m" by simp
  have l: "extractText_loop (Suc fuel) file (Num (n + 4)) (Num 0) = Some (Num (m + 4), Num L)"
    using p len assms(4) zeros
    by (subst extractText_loop.simps) (simp add: Let_def subarray_Num mult.commute add.commute)
  have "extractText (Suc (Suc fuel)) file (Num n)
           = Some (filter (\<lambda>c. c \<noteq> CHR 0x00) (toString_ascii (take (2 * L) (drop (m + 4) file))),
                   Num (m + 4 + 2 * L))"
    using zero l
    by (subst extractText.simps) (simp add: Let_def subarray_Num mult.commute add.commute)
  with m show ?thesis ..
qed

lemma extractText_rewind_NaN:
  assumes zero: "parseInt_hex (subarray file (Num n) (Num (n + 4))) = Num 0"
    and p: "extractProperty fuel file (Num n) = Some (p, off1)"
    and len: "parseInt_hex (subarray file off1 (off1 + Num 4)) = NaN"
  shows "extractText (Suc (Suc fuel)) file (Num n) = Some ([], NaN)"
proof -
  from p obtain f3 where f3: "fuel = Suc f3"
    by (cases fuel) (simp_all add: extractProperty.simps)
  have l2: "extractText_loop fuel file (off1 + Num 4) NaN = Some (off1 + Num 4, NaN)"
    unfolding f3 by (subst extractText_loop.simps) simp
  have l: "extractText_loop (Suc fuel) file (Num (n + 4)) (Num 0) = Some (off1 + Num 4, NaN)"
    using p len l2
    by (subst extractText_loop.simps) (simp add: Let_def)
  show ?thesis
    using zero l
    by (subst extractText.simps) (simp add: Let_def subarray_NaN_end)
qed

lemma extractLabel_inside_exact:
  assumes "n < length file"
  shows "\<exists>L. parseInt_hex (subarray file (Num n) (Num (n + 4))) = Num L
           \<and> snd (extractLabel file (Num n)) = Num (n + 4 + (if L = 0 then 4 else L))"
proof -
  from parseInt_hex_inside [OF assms] obtain L
    where "parseInt_hex (subarray file (Num n) (Num (n + 4))) = Num L" ..
  then show ?thesis by (simp add: extractLabel_def Let_def)
qed

lemma extractEnum_inside_exact:
  assumes "parseInt_hex (subarray file (Num n) (Num (n + 4))) = Num L"
    and "n + 4 + (if L = 0 then 4 else L) < length file"
  shows "\<exists>M. parseInt_hex (subarray file (Num (n + 4 + (if L = 0 then 4 else L)))
                   (Num (n + 8 + (if L = 0 then 4 else L)))) = Num M
           \<and> snd (extractEnum file (Num n))
               = Num (n + 8 + (if L = 0 then 4 else L) + (if M = 0 then 4 else M))"
proof -
  let ?c = "if L = 0 then 4 else L"
  from parseInt_hex_inside [OF assms(2)] obtain M
    where M: "parseInt_hex (subarray file (Num (n + 4 + ?c)) (Num (n + 4 + ?c + 4))) = Num M" ..
  have e: "n + 4 + ?c + 4 = n + 8 + ?c" by simp
  from M assms(1) have "snd (extractEnum file (Num n)) = Num (n + 8 + ?c + (if M = 0 then 4 else M))"
    by (cases "L = 0"; cases "M = 0") (simp_all add: extractEnum_def Let_def)
  with M show ?thesis unfolding e by blast
qed




section \<open>Lists with unsupported elements\<close>

lemma extractList_loop_length:
  "extractList_loop fuel file offset i n ps = Some (vals, newOffset)
   \<Longrightarrow> \<exists>rest. vals = ps @ rest \<and> length rest = (case n of Num k \<Rightarrow> k - i | NaN \<Rightarrow> 0)"
proof (induction fuel arbitrary: offset i ps)
  case 0
  then show ?case by (simp add: extractList_loop.simps)
next
  case (Suc fuel)
  show ?case
  proof (cases "Num i < n")
    case True
    then obtain k where k: "n = Num k" "i < k" by (cases n) simp_all
    from Suc.prems True obtain p off1
      where "extractList_loop fuel file off1 (Suc i) n
               (ps @ [get_property p (number_toString i)]) = Some (vals, newOffset)"
      by (auto simp: extractList_loop.simps Let_def split: option.splits prod.splits)
    from Suc.IH [OF this] obtain rest
      where "vals = (ps @ [get_property p (number_toString i)]) @ rest"
        and "length rest = k - Suc i"
      using k by auto
    with k show ?thesis by auto
  next
    case False
    with Suc.prems have "vals = ps" by (simp add: extractList_loop.simps)
    moreover from False have "(case n of Num k \<Rightarrow> k - i | NaN \<Rightarrow> 0) = 0"
      by (cases n) simp_all
    ultimately show ?thesis by simp
  qed
qed

lemma extractList_loop_hole:
  assumes "Num i < n"
    and "toString_ascii (subarray file offset (offset + Num 4)) \<in> set unsupported"
  shows "extractList_loop (Suc (Suc (Suc fuel))) file offset i n ps
           = extractList_loop (Suc (Suc fuel)) file (offset + Num 4) (Suc i) n (ps @ [Undefined])"
proof -
  from assms(2) have "extractOsTypeValue (Suc fuel) file (offset + Num 4)
        (trim (toString_ascii (Buffer_from_ascii (number_toString i))))
        (toString_ascii (subarray file offset (offset + Num 4))) = Some (None, offset + Num 4)"
    by (rule extractOsTypeValue_unsupported)
  then have "extractPropertyValue (Suc (Suc fuel)) file offset (Buffer_from_ascii (number_toString i))
               = Some (Object [], offset + Num 4)"
    by (simp only: extractPropertyValue.simps Let_def option.case prod.case)
  with assms(1) show ?thesis
    by (subst extractList_loop.simps) (simp add: Let_def)
qed

lemma extractList_loop_budget:
  assumes "extractList_loop fuel file offset i n ps = Some r" and "Num i < n"
    and "toString_ascii (subarray file offset (offset + Num 4)) \<in> set unsupported"
  shows "\<exists>k. fuel = Suc (Suc (Suc k))"
proof -
  from assms(1) obtain f1 where f1: "fuel = Suc f1"
    by (cases fuel) (simp_all add: extractList_loop.simps)
  with assms(1,2) obtain x
    where "extractPropertyValue f1 file offset (Buffer_from_ascii (number_toString i)) = Some x"
    by (auto simp: extractList_loop.simps Let_def split: option.splits)
  then obtain f2 y where f2: "f1 = Suc f2"
    and "extractOsTypeValue f2 file (offset + Num 4)
           (trim (toString_ascii (Buffer_from_ascii (number_toString i))))
           (toString_ascii (subarray file offset (offset + Num 4))) = Some y"
    by (cases f1) (auto simp: extractPropertyValue.simps Let_def split: option.splits)
  then obtain f3 where "f2 = Suc f3"
    by (cases f2) (simp_all add: extractOsTypeValue.simps)
  with f1 f2 show ?thesis by simp
qed


text \<open>A list of two elements, the first of tag \<^verbatim>\<open>tdta\<close>, the second a \<^verbatim>\<open>long\<close>.\<close>

lemmas list_eval = extractList.simps extractList_loop.simps extractPropertyValue.simps
  extractOsTypeValue.simps handled_def extractInteger_def number_toString.simps
  Buffer_from_ascii_def trim_def is_space_def unsupported_def byte_eval


end
